theory Spec2Isabelle
  imports Main "HOL-Library.Word"
begin

section \<open>Machine-level conventions\<close>

text \<open>
  A \<^verbatim>\<open>wchar_t\<close> is a 16-bit code unit and a \<^verbatim>\<open>wstring\<close> a list of them.  Literals of
  the source are written through \<open>wstr\<close>, which widens an 8-bit string literal, and the
  few non-ASCII glyphs are given by their code point.

  The C++ \<^verbatim>\<open>int\<close> is modelled by \<^typ>\<open>int\<close>: signed overflow is undefined in C++, so
  every statement below is about runs in which no sum leaves the 32-bit range.
\<close>

type_synonym wchar = "16 word"
type_synonym wstring = "wchar list"

definition wch :: "char \<Rightarrow> wchar" where
  "wch c = of_nat (of_char c)"

definition wstr :: "string \<Rightarrow> wstring" where
  "wstr s = map wch s"

text \<open>Integer division of C++ truncates towards zero.\<close>

definition cdiv :: "int \<Rightarrow> int \<Rightarrow> int" where
  "cdiv a b = sgn a * sgn b * (\<bar>a\<bar> div \<bar>b\<bar>)"

text \<open>
  The source scales sizes by \<^verbatim>\<open>(int)(i * c)\<close> with a \<^verbatim>\<open>double\<close> constant \<open>c\<close>.  A double
  constant is the fraction \<open>m / 2 ^ e\<close>; the product of the converted \<^verbatim>\<open>int\<close> with it is
  computed exactly, rounded to 53 significant bits (to nearest, ties to even, the IEEE 754
  binary64 default) and the conversion to \<^verbatim>\<open>int\<close> drops the fraction.  \<open>bitlen\<close> is the
  number of binary digits of a natural number.
\<close>

fun bitlen :: "nat \<Rightarrow> nat" where
  "bitlen n = (if n = 0 then 0 else Suc (bitlen (n div 2)))"

declare bitlen.simps [simp del]

definition round53 :: "nat \<Rightarrow> nat" where
  "round53 n =
     (let sh = bitlen n - 53;
          q = n div 2 ^ sh;
          r = n mod 2 ^ sh
      in if 2 ^ sh < 2 * r \<or> (2 * r = 2 ^ sh \<and> odd q) then (q + 1) * 2 ^ sh else q * 2 ^ sh)"

definition int_times_double :: "int \<Rightarrow> nat \<Rightarrow> nat \<Rightarrow> int" where
  "int_times_double i m e = sgn i * int (round53 (nat \<bar>i\<bar> * m) div 2 ^ e)"

text \<open>The double constants of the source, as the fractions they denote.\<close>

definition times_0_7 :: "int \<Rightarrow> int" where
  "times_0_7 i = int_times_double i 3152519739159347 52"

definition times_0_6 :: "int \<Rightarrow> int" where
  "times_0_6 i = int_times_double i 5404319552844595 53"

definition times_0_8 :: "int \<Rightarrow> int" where
  "times_0_8 i = int_times_double i 3602879701896397 52"

definition times_0_5 :: "int \<Rightarrow> int" where
  "times_0_5 i = int_times_double i 1 1"

definition times_0_1 :: "int \<Rightarrow> int" where
  "times_0_1 i = int_times_double i 3602879701896397 55"

definition times_0_15 :: "int \<Rightarrow> int" where
  "times_0_15 i = int_times_double i 5404319552844595 55"

definition times_1_5 :: "int \<Rightarrow> int" where
  "times_1_5 i = int_times_double i 3 1"

lemmas scale_eval =
  times_0_7_def times_0_6_def times_0_8_def times_0_5_def times_0_1_def times_0_15_def
  times_1_5_def int_times_double_def round53_def bitlen.simps cdiv_def Let_def

section \<open>The renderer capability\<close>

text \<open>
  \<^verbatim>\<open>IRenderer\<close> holds a font size and an italic flag, answers two metric queries and
  receives two kinds of drawing calls.  Both implementations answer the queries from the
  font selected at that moment, so the metrics are two functions of (size, italic) and of
  the queried string; \<open>drawn\<close> is the sequence of drawing calls received so far.
\<close>

datatype DrawCall =
    Line int int int int
  | TextOut int int wstring

record Renderer =
  rFontSize :: int
  isItalic :: bool
  textWidth :: "int \<Rightarrow> bool \<Rightarrow> wstring \<Rightarrow> int"
  textHeight :: "int \<Rightarrow> bool \<Rightarrow> int"
  drawn :: "DrawCall list"

definition SetFontSize :: "int \<Rightarrow> Renderer \<Rightarrow> Renderer" where
  "SetFontSize sz r = r\<lparr>rFontSize := sz\<rparr>"

definition SetFontStyle :: "bool \<Rightarrow> Renderer \<Rightarrow> Renderer" where
  "SetFontStyle italic r = r\<lparr>isItalic := italic\<rparr>"

definition DrawLine :: "int \<Rightarrow> int \<Rightarrow> int \<Rightarrow> int \<Rightarrow> Renderer \<Rightarrow> Renderer" where
  "DrawLine x1 y1 x2 y2 r = r\<lparr>drawn := drawn r @ [Line x1 y1 x2 y2]\<rparr>"

definition DrawTextStr :: "int \<Rightarrow> int \<Rightarrow> wstring \<Rightarrow> Renderer \<Rightarrow> Renderer" where
  "DrawTextStr x y text r = r\<lparr>drawn := drawn r @ [TextOut x y text]\<rparr>"

definition GetTextWidth :: "wstring \<Rightarrow> Renderer \<Rightarrow> int" where
  "GetTextWidth text r = textWidth r (rFontSize r) (isItalic r) text"

definition GetTextHeight :: "Renderer \<Rightarrow> int" where
  "GetTextHeight r = textHeight r (rFontSize r) (isItalic r)"

section \<open>The node tree\<close>

text \<open>
  \<^verbatim>\<open>MathNode\<close> carries the derived geometry; every node kind adds its own members, in
  the order of the source.  A null \<^verbatim>\<open>shared_ptr\<close> child is \<open>None\<close>.
\<close>

record Geometry =
  width :: int
  height :: int
  ascent :: int

datatype MathNode =
    RowNode Geometry "MathNode list"
  | TextNode Geometry wstring bool int int
  | FracNode Geometry MathNode MathNode int
  | ScriptNode Geometry MathNode "MathNode option" "MathNode option"
  | BigOperatorNode Geometry wstring "MathNode option" "MathNode option" int bool
  | IntegralNode Geometry "MathNode option" "MathNode option" "MathNode option" int
  | SqrtNode Geometry MathNode "MathNode option"
  | ScalingFenceNode Geometry MathNode wstring wstring

fun geo :: "MathNode \<Rightarrow> Geometry" where
  "geo (RowNode g children) = g"
| "geo (TextNode g text italic fontSize hOffset) = g"
| "geo (FracNode g num den fontSize) = g"
| "geo (ScriptNode g base super sub) = g"
| "geo (BigOperatorNode g opSymbol lower upper fontSize isTextOp) = g"
| "geo (IntegralNode g lower upper integrand baseSize) = g"
| "geo (SqrtNode g child index) = g"
| "geo (ScalingFenceNode g content left right) = g"

fun children_of :: "MathNode \<Rightarrow> MathNode list" where
  "children_of (RowNode g cs) = cs"
| "children_of n = []"

fun isTextNode :: "MathNode \<Rightarrow> bool" where
  "isTextNode (TextNode g text italic fontSize hOffset) = True"
| "isTextNode n = False"

definition geo0 :: Geometry where
  "geo0 = \<lparr>width = 0, height = 0, ascent = 0\<rparr>"

definition mk_geo :: "int \<Rightarrow> int \<Rightarrow> int \<Rightarrow> Geometry" where
  "mk_geo w h a = \<lparr>width = w, height = h, ascent = a\<rparr>"

section \<open>The Measure pass\<close>

text \<open>
  \<^verbatim>\<open>Measure\<close> writes the three geometry members of the node and of every node below it
  and changes the font state of the renderer; the model returns the rewritten node and
  the renderer.  \<open>Measure_children\<close> is the loop of \<^verbatim>\<open>RowNode::Measure\<close> with its three
  running values, \<open>Measure_opt\<close> the guarded call \<^verbatim>\<open>if (p) p->Measure(r)\<close>.
\<close>

definition opt_width :: "MathNode option \<Rightarrow> int" where
  "opt_width p = (case p of None \<Rightarrow> 0 | Some n \<Rightarrow> width (geo n))"

definition opt_height :: "MathNode option \<Rightarrow> int" where
  "opt_height p = (case p of None \<Rightarrow> 0 | Some n \<Rightarrow> height (geo n))"

fun Measure :: "MathNode \<Rightarrow> Renderer \<Rightarrow> MathNode \<times> Renderer"
  and Measure_children ::
    "MathNode list \<Rightarrow> Renderer \<Rightarrow> int \<Rightarrow> int \<Rightarrow> int \<Rightarrow> MathNode list \<times> int \<times> int \<times> int \<times> Renderer"
  and Measure_opt :: "MathNode option \<Rightarrow> Renderer \<Rightarrow> MathNode option \<times> Renderer"
where
  "Measure (RowNode g children) r =
     (case Measure_children children r 0 0 0 of
        (children', w, maxAscent, maxDescent, r') \<Rightarrow>
          (RowNode (mk_geo w (maxAscent + maxDescent) maxAscent) children', r'))"
| "Measure (TextNode g text italic fontSize hOffset) r =
     (let r1 = SetFontStyle italic (SetFontSize fontSize r);
          w = GetTextWidth text r1 + hOffset;
          h = GetTextHeight r1
      in (TextNode (mk_geo w h (times_0_8 h)) text italic fontSize hOffset, r1))"
| "Measure (FracNode g num den fontSize) r =
     (case Measure num r of (num', r1) \<Rightarrow>
      case Measure den r1 of (den', r2) \<Rightarrow>
        (FracNode
           (mk_geo (max (width (geo num')) (width (geo den')) + 10)
                   (height (geo num') + height (geo den') + 4)
                   (height (geo num') + 2))
           num' den' fontSize, r2))"
| "Measure (ScriptNode g base super sub) r =
     (case Measure base r of (base', r1) \<Rightarrow>
      case Measure_opt super r1 of (super', r2) \<Rightarrow>
      case Measure_opt sub r2 of (sub', r3) \<Rightarrow>
        (let w0 = width (geo base');
             a0 = ascent (geo base');
             h0 = height (geo base');
             scriptW1 = (case super' of None \<Rightarrow> 0 | Some s \<Rightarrow> max 0 (width (geo s)));
             a1 = (case super' of None \<Rightarrow> a0
                   | Some s \<Rightarrow> max a0 (height (geo s) + cdiv (ascent (geo base')) 2));
             scriptW2 = (case sub' of None \<Rightarrow> scriptW1 | Some s \<Rightarrow> max scriptW1 (width (geo s)));
             h1 = (case sub' of None \<Rightarrow> h0 | Some s \<Rightarrow> max h0 (height (geo s) + a1))
         in (ScriptNode (mk_geo (w0 + scriptW2) h1 a1) base' super' sub', r3)))"
| "Measure (BigOperatorNode g opSymbol lower upper fontSize isTextOp) r =
     (let r1 = SetFontStyle False
                 (SetFontSize (if isTextOp then fontSize else times_1_5 fontSize) r);
          baseW = GetTextWidth opSymbol r1;
          baseH = GetTextHeight r1
      in case Measure_opt lower r1 of (lower', r2) \<Rightarrow>
         case Measure_opt upper r2 of (upper', r3) \<Rightarrow>
           (let lowW = opt_width lower'; lowH = opt_height lower';
                upW = opt_width upper'; upH = opt_height upper';
                topPart = upH + times_0_8 baseH;
                botPart = (baseH - times_0_8 baseH) + lowH
            in (BigOperatorNode
                  (mk_geo (max baseW (max lowW upW) + 4) (topPart + botPart) topPart)
                  opSymbol lower' upper' fontSize isTextOp, r3)))"
| "Measure (IntegralNode g lower upper integrand baseSize) r =
     (let r1 = SetFontStyle False (SetFontSize (times_1_5 baseSize) r);
          intW = GetTextWidth [0x222B] r1;
          intH = GetTextHeight r1
      in case Measure_opt upper r1 of (upper', r2) \<Rightarrow>
         case Measure_opt lower r2 of (lower', r3) \<Rightarrow>
           (let limitsW1 = (case upper' of None \<Rightarrow> 0 | Some u \<Rightarrow> max 0 (width (geo u)));
                limitsH1 = (case upper' of None \<Rightarrow> 0 | Some u \<Rightarrow> 0 + height (geo u));
                limitsW2 = (case lower' of None \<Rightarrow> limitsW1 | Some l \<Rightarrow> max limitsW1 (width (geo l)));
                limitsH2 = (case lower' of None \<Rightarrow> limitsH1 | Some l \<Rightarrow> limitsH1 + height (geo l))
            in (IntegralNode
                  (mk_geo (intW + limitsW2 + 4) (max intH limitsH2) (cdiv intH 2))
                  lower' upper' integrand baseSize, r3)))"
| "Measure (SqrtNode g child index) r =
     (case Measure child r of (child', r1) \<Rightarrow>
      case Measure_opt index r1 of (index', r2) \<Rightarrow>
        (let w0 = width (geo child') + 15;
             h0 = height (geo child') + 5;
             a0 = ascent (geo child') + 5;
             w1 = (case index' of None \<Rightarrow> w0 | Some i \<Rightarrow> w0 + max 0 (width (geo i) - 5));
             a1 = (case index' of None \<Rightarrow> a0 | Some i \<Rightarrow> max a0 (height (geo i) + 5));
             h1 = (case index' of None \<Rightarrow> h0
                   | Some i \<Rightarrow> max h0 (a1 + (height (geo child') - ascent (geo child'))))
         in (SqrtNode (mk_geo w1 h1 a1) child' index', r2)))"
| "Measure (ScalingFenceNode g content left right) r =
     (case Measure content r of (content', r1) \<Rightarrow>
        (ScalingFenceNode
           (mk_geo (width (geo content') + 14) (height (geo content')) (ascent (geo content')))
           content' left right, r1))"
| "Measure_children [] r w maxAscent maxDescent = ([], w, maxAscent, maxDescent, r)"
| "Measure_children (c # cs) r w maxAscent maxDescent =
     (case Measure c r of (c', r1) \<Rightarrow>
        (let w1 = w + width (geo c');
             maxAscent1 = (if ascent (geo c') > maxAscent then ascent (geo c') else maxAscent);
             descent = height (geo c') - ascent (geo c');
             maxDescent1 = (if descent > maxDescent then descent else maxDescent)
         in case Measure_children cs r1 w1 maxAscent1 maxDescent1 of
              (cs', res) \<Rightarrow> (c' # cs', res)))"
| "Measure_opt None r = (None, r)"
| "Measure_opt (Some n) r = (case Measure n r of (n', r1) \<Rightarrow> (Some n', r1))"

section \<open>The Draw pass\<close>

text \<open>
  \<^verbatim>\<open>Draw\<close> reads the geometry that \<^verbatim>\<open>Measure\<close> left in the nodes, changes nothing in the
  tree and sends its calls to the renderer.  \<open>Draw_children\<close> is the loop of
  \<^verbatim>\<open>RowNode::Draw\<close> with its running \<^verbatim>\<open>curX\<close>; its fourth argument is the row's own
  \<^verbatim>\<open>ascent\<close> member.
\<close>

definition draw_left_delim :: "wstring \<Rightarrow> int \<Rightarrow> int \<Rightarrow> int \<Rightarrow> Renderer \<Rightarrow> Renderer" where
  "draw_left_delim left x y h r =
     (if left = wstr ''|'' then DrawLine (x + 2) y (x + 2) (y + h) r
      else if left = wstr ''('' then
        DrawLine (x + 1) (y + cdiv h 2) (x + 5) (y + h)
          (DrawLine (x + 5) y (x + 1) (y + cdiv h 2) r)
      else if left = wstr ''['' then
        DrawLine (x + 5) (y + h) (x + 10) (y + h)
          (DrawLine (x + 5) y (x + 10) y
            (DrawLine (x + 5) y (x + 5) (y + h) r))
      else r)"

definition draw_right_delim :: "wstring \<Rightarrow> int \<Rightarrow> int \<Rightarrow> int \<Rightarrow> int \<Rightarrow> Renderer \<Rightarrow> Renderer" where
  "draw_right_delim right x y w h r =
     (if right = wstr ''|'' then DrawLine (x + w - 2) y (x + w - 2) (y + h) r
      else if right = wstr '')'' then
        DrawLine (x + w - 1) (y + cdiv h 2) (x + w - 5) (y + h)
          (DrawLine (x + w - 5) y (x + w - 1) (y + cdiv h 2) r)
      else if right = wstr '']'' then
        DrawLine (x + w - 5) (y + h) (x + w - 10) (y + h)
          (DrawLine (x + w - 5) y (x + w - 10) y
            (DrawLine (x + w - 5) y (x + w - 5) (y + h) r))
      else r)"

fun Draw :: "MathNode \<Rightarrow> Renderer \<Rightarrow> int \<Rightarrow> int \<Rightarrow> Renderer"
  and Draw_children :: "MathNode list \<Rightarrow> Renderer \<Rightarrow> int \<Rightarrow> int \<Rightarrow> int \<Rightarrow> Renderer"
where
  "Draw (RowNode g children) r x y = Draw_children children r x y (ascent g)"
| "Draw (TextNode g text italic fontSize hOffset) r x y =
     DrawTextStr (x + hOffset) y text (SetFontStyle italic (SetFontSize fontSize r))"
| "Draw (FracNode g num den fontSize) r x y =
     (let midX = x + cdiv (width g) 2;
          r1 = Draw num r (midX - cdiv (width (geo num)) 2) y;
          lineY = y + height (geo num) + 2;
          r2 = DrawLine x lineY (x + width g) lineY r1
      in Draw den r2 (midX - cdiv (width (geo den)) 2) (lineY + 2))"
| "Draw (ScriptNode g base super sub) r x y =
     (let r1 = Draw base r x (y + (ascent g - ascent (geo base)));
          scriptX = x + width (geo base);
          baseY = y + (ascent g - ascent (geo base));
          r2 = (case super of None \<Rightarrow> r1
                | Some s \<Rightarrow> Draw s r1 scriptX (baseY - times_0_5 (height (geo s))))
      in (case sub of None \<Rightarrow> r2
          | Some s \<Rightarrow>
              Draw s r2 scriptX
                (baseY + height (geo base) - ascent (geo base) + times_0_1 (height (geo s)))))"
| "Draw (BigOperatorNode g opSymbol lower upper fontSize isTextOp) r x y =
     (let midX = x + cdiv (width g) 2;
          r1 = (case upper of None \<Rightarrow> r
                | Some u \<Rightarrow> Draw u r (midX - cdiv (width (geo u)) 2) y);
          r2 = SetFontStyle False
                 (SetFontSize (if isTextOp then fontSize else times_1_5 fontSize) r1);
          opW = GetTextWidth opSymbol r2;
          opH = GetTextHeight r2;
          opY = y + (case upper of None \<Rightarrow> 0 | Some u \<Rightarrow> height (geo u));
          r3 = DrawTextStr (midX - cdiv opW 2) opY opSymbol r2
      in (case lower of None \<Rightarrow> r3
          | Some l \<Rightarrow> Draw l r3 (midX - cdiv (width (geo l)) 2) (opY + opH)))"
| "Draw (IntegralNode g lower upper integrand baseSize) r x y =
     (let r1 = SetFontStyle False (SetFontSize (times_1_5 baseSize) r);
          intW = GetTextWidth [0x222B] r1;
          intH = GetTextHeight r1;
          opY = y + (ascent g - cdiv intH 2);
          r2 = DrawTextStr x opY [0x222B] r1;
          limX = x + intW + 2;
          r3 = (case upper of None \<Rightarrow> r2 | Some u \<Rightarrow> Draw u r2 limX (opY + 2))
      in (case lower of None \<Rightarrow> r3
          | Some l \<Rightarrow> Draw l r3 limX (opY + intH - height (geo l) - 2)))"
| "Draw (SqrtNode g child index) r x y =
     (let r1 = (case index of None \<Rightarrow> r | Some i \<Rightarrow> Draw i r x y);
          startX = (case index of None \<Rightarrow> x | Some i \<Rightarrow> x + max 5 (width (geo i)));
          r2 = Draw child r1 (startX + 10) (y + (ascent g - ascent (geo child) - 5) + 5);
          bottomY = y + ascent g + (height (geo child) - ascent (geo child));
          topY = y + (ascent g - ascent (geo child) - 5);
          r3 = DrawLine startX (bottomY - cdiv (bottomY - topY) 2) (startX + 5) bottomY r2;
          r4 = DrawLine (startX + 5) bottomY (startX + 10) topY r3
      in DrawLine (startX + 10) topY (startX + width (geo child) + 15) topY r4)"
| "Draw (ScalingFenceNode g content left right) r x y =
     (let r1 = Draw content r (x + 7) y;
          h = height g;
          r2 = draw_left_delim left x y h r1
      in draw_right_delim right x y (width g) h r2)"
| "Draw_children [] r curX y rowAscent = r"
| "Draw_children (c # cs) r curX y rowAscent =
     Draw_children cs (Draw c r curX (y + (rowAscent - ascent (geo c)))) (curX + width (geo c)) y rowAscent"

section \<open>Observing a renderer\<close>

text \<open>
  A renderer to run the passes on: it starts in the state the constructors of the source
  leave (size 28, upright), its line height is the magnitude of the font size and every
  glyph is half as wide as that.
\<close>

definition sample_renderer :: Renderer where
  "sample_renderer =
     \<lparr>rFontSize = 28, isItalic = False,
      textWidth = (\<lambda>sz italic text. cdiv \<bar>sz\<bar> 2 * int (length text)),
      textHeight = (\<lambda>sz italic. \<bar>sz\<bar>),
      drawn = []\<rparr>"

text \<open>
  \<open>emitted step r\<close> are the drawing calls that \<open>step\<close> adds when it starts from \<open>r\<close>, and
  \<open>y_extent\<close> is the lowest and the highest \<open>y\<close> coordinate among the end points of the
  lines in a sequence of calls.
\<close>

fun line_ys :: "DrawCall \<Rightarrow> int list" where
  "line_ys (Line x1 y1 x2 y2) = [y1, y2]"
| "line_ys (TextOut x y text) = []"

definition y_extent :: "DrawCall list \<Rightarrow> (int \<times> int) option" where
  "y_extent calls =
     (case concat (map line_ys calls) of
        [] \<Rightarrow> None
      | v # vs \<Rightarrow> Some (fold min vs v, fold max vs v))"

definition emitted :: "(Renderer \<Rightarrow> Renderer) \<Rightarrow> Renderer \<Rightarrow> DrawCall list" where
  "emitted step r = drop (length (drawn r)) (drawn (step r))"

lemmas render_eval =
  sample_renderer_def SetFontSize_def SetFontStyle_def GetTextWidth_def GetTextHeight_def
  DrawLine_def DrawTextStr_def mk_geo_def geo0_def opt_width_def opt_height_def


section \<open>The parser\<close>

subsection \<open>Character classes, failures, parser state\<close>

text \<open>
  \<^verbatim>\<open>iswalpha\<close> and \<^verbatim>\<open>iswdigit\<close> belong to the C runtime and answer from the process
  locale, so the classification is a parameter \<open>L\<close> of the parser.  In every locale the
  null character is neither a letter nor a digit; \<open>standard_locale\<close> says that \<open>L\<close>
  classifies the ASCII range as the C standard fixes it.
\<close>

record Locale =
  alpha :: "wchar \<Rightarrow> bool"
  digit :: "wchar \<Rightarrow> bool"

definition iswalpha :: "Locale \<Rightarrow> wchar \<Rightarrow> bool" where
  "iswalpha L c = (c \<noteq> 0 \<and> alpha L c)"

definition iswdigit :: "Locale \<Rightarrow> wchar \<Rightarrow> bool" where
  "iswdigit L c = (c \<noteq> 0 \<and> digit L c)"

definition ascii_letter :: "wchar \<Rightarrow> bool" where
  "ascii_letter c = ((65 \<le> c \<and> c \<le> 90) \<or> (97 \<le> c \<and> c \<le> 122))"

definition ascii_digit :: "wchar \<Rightarrow> bool" where
  "ascii_digit c = (48 \<le> c \<and> c \<le> 57)"

definition standard_locale :: "Locale \<Rightarrow> bool" where
  "standard_locale L =
     (\<forall>c. c < 128 \<longrightarrow> alpha L c = ascii_letter c \<and> digit L c = ascii_digit c)"

definition C_locale :: Locale where
  "C_locale = \<lparr>alpha = ascii_letter, digit = ascii_digit\<rparr>"

text \<open>
  The one exception the parser's library calls can raise by their own contract is
  \<^verbatim>\<open>std::out_of_range\<close>, from \<^verbatim>\<open>wstring::substr\<close> with a start beyond the end.  Nothing
  catches it, so a parse that raised it would abort: the parsing functions return
  \<open>Inl OutOfRange\<close> then.  Exhausted memory and exhausted stack are outside the model.
\<close>

datatype error = OutOfRange

definition substr :: "wstring \<Rightarrow> nat \<Rightarrow> nat \<Rightarrow> error + wstring" where
  "substr s start n = (if length s < start then Inl OutOfRange else Inr (take n (drop start s)))"

text \<open>
  The static member \<^verbatim>\<open>symbols\<close> is shared by all parsers.  It is an association list
  here; each parser value carries the table as its constructor left it.
\<close>

type_synonym symtab = "(wstring \<times> wstring) list"

record Parser =
  source :: wstring
  pos :: nat
  currentFontSize :: int
  symbols :: symtab

definition symbol_table :: symtab where
  "symbol_table =
    [(wstr ''Alpha'', [0x0391]), (wstr ''Beta'', [0x0392]), (wstr ''Gamma'', [0x0393]),
     (wstr ''Delta'', [0x0394]), (wstr ''Epsilon'', [0x0395]), (wstr ''Zeta'', [0x0396]),
     (wstr ''Eta'', [0x0397]), (wstr ''Theta'', [0x0398]), (wstr ''Lambda'', [0x039B]),
     (wstr ''Xi'', [0x039E]), (wstr ''Pi'', [0x03A0]), (wstr ''Sigma'', [0x03A3]),
     (wstr ''Phi'', [0x03A6]), (wstr ''Psi'', [0x03A8]), (wstr ''Omega'', [0x03A9]),
     (wstr ''alpha'', [0x03B1]), (wstr ''beta'', [0x03B2]), (wstr ''gamma'', [0x03B3]),
     (wstr ''delta'', [0x03B4]), (wstr ''epsilon'', [0x03B5]), (wstr ''zeta'', [0x03B6]),
     (wstr ''eta'', [0x03B7]), (wstr ''theta'', [0x03B8]), (wstr ''lambda'', [0x03BB]),
     (wstr ''xi'', [0x03BE]), (wstr ''pi'', [0x03C0]), (wstr ''sigma'', [0x03C3]),
     (wstr ''phi'', [0x03C6]), (wstr ''psi'', [0x03C8]), (wstr ''omega'', [0x03C9]),
     (wstr ''infty'', [0x221E]), (wstr ''approx'', [0x2248]), (wstr ''neq'', [0x2260]),
     (wstr ''le'', [0x2264]), (wstr ''ge'', [0x2265]), (wstr ''pm'', [0x00B1]),
     (wstr ''cdot'', [0x2219]),
     (wstr ''to'', [0x2192]),
     (wstr ''thinspace'', wstr '' ''),
     (wstr ''quad'', wstr ''  ''),
     (wstr ''!'', []),
     (wstr '','', []),
     (wstr [CHR 0x27], wstr [CHR 0x27])]"

definition InitSymbols :: "symtab \<Rightarrow> symtab" where
  "InitSymbols tab = (if tab \<noteq> [] then tab else symbol_table)"

definition new_Parser :: "symtab \<Rightarrow> wstring \<Rightarrow> int \<Rightarrow> Parser" where
  "new_Parser tab s fs =
     \<lparr>source = s, pos = 0, currentFontSize = fs, symbols = InitSymbols tab\<rparr>"

definition Peek :: "Parser \<Rightarrow> wchar" where
  "Peek p = (if pos p < length (source p) then source p ! pos p else 0)"

definition Next :: "Parser \<Rightarrow> wchar \<times> Parser" where
  "Next p =
     (if pos p < length (source p) then (source p ! pos p, p\<lparr>pos := pos p + 1\<rparr>) else (0, p))"

subsection \<open>Block extraction\<close>

function block_braces :: "Parser \<Rightarrow> int \<Rightarrow> wstring \<Rightarrow> wstring \<times> Parser" where
  "block_braces p depth res =
     (if pos p < length (source p) \<and> 0 < depth then
        (case Next p of (c, p1) \<Rightarrow>
           (let depth1 = (if c = wch CHR ''{'' then depth + 1
                          else if c = wch CHR ''}'' then depth - 1 else depth);
                res1 = (if 0 < depth1 then res @ [c] else res)
            in block_braces p1 depth1 res1))
      else (res, p))"
  by pat_completeness auto
termination
  by (relation "measure (\<lambda>(p, depth, res). length (source p) - pos p)") (auto simp: Next_def)

declare block_braces.simps [simp del]

function block_brackets :: "Parser \<Rightarrow> wstring \<Rightarrow> wstring \<times> Parser" where
  "block_brackets p res =
     (if pos p < length (source p) \<and> Peek p \<noteq> wch CHR '']'' then
        (case Next p of (c, p1) \<Rightarrow> block_brackets p1 (res @ [c]))
      else (res, p))"
  by pat_completeness auto
termination
  by (relation "measure (\<lambda>(p, res). length (source p) - pos p)") (auto simp: Next_def)

declare block_brackets.simps [simp del]

definition ParseBlockStr :: "Parser \<Rightarrow> wstring \<times> Parser" where
  "ParseBlockStr p =
     (if Peek p = wch CHR ''{'' then
        (case Next p of (c, p1) \<Rightarrow> block_braces p1 1 [])
      else if Peek p = wch CHR ''['' then
        (case Next p of (c, p1) \<Rightarrow>
         case block_brackets p1 [] of (res, p2) \<Rightarrow>
           (res, if pos p2 < length (source p2) then snd (Next p2) else p2))
      else if pos p < length (source p) then
        (case Next p of (c, p1) \<Rightarrow> ([c], p1))
      else ([], p))"

text \<open>
  \<open>adv p p'\<close>: \<open>p'\<close> is \<open>p\<close> with the cursor moved forward, and not beyond the end of
  the source unless it was there already.  Every scanning step of the parser is of this
  kind, and an extracted block is no longer than the stretch the cursor moved over.
\<close>

definition adv :: "Parser \<Rightarrow> Parser \<Rightarrow> bool" where
  "adv p p' =
     (source p' = source p \<and> currentFontSize p' = currentFontSize p \<and> symbols p' = symbols p \<and>
      pos p \<le> pos p' \<and> pos p' \<le> max (pos p) (length (source p)))"

lemma adv_refl: "adv p p"
  by (simp add: adv_def)

lemma adv_trans: "adv p q \<Longrightarrow> adv q r \<Longrightarrow> adv p r"
  by (auto simp: adv_def)

lemma Next_adv: "Next p = (c, p1) \<Longrightarrow> adv p p1"
  by (auto simp: Next_def adv_def split: if_splits)

lemma block_braces_adv:
  "block_braces p depth res = (s, p') \<Longrightarrow> adv p p' \<and> length s + pos p \<le> pos p' + length res"
proof (induction p depth res rule: block_braces.induct)
  case (1 p depth res)
  show ?case
  proof (cases "pos p < length (source p) \<and> 0 < depth")
    case True
    obtain c p1 where n: "Next p = (c, p1)" by (cases "Next p")
    let ?d = "if c = wch CHR ''{'' then depth + 1 else if c = wch CHR ''}'' then depth - 1 else depth"
    let ?r = "if 0 < ?d then res @ [c] else res"
    from "1.prems" True n have e: "block_braces p1 ?d ?r = (s, p')"
      by (simp add: block_braces.simps [of p] Let_def)
    have ih: "adv p1 p' \<and> length s + pos p1 \<le> pos p' + length ?r"
      by (rule "1.IH" [OF True n [symmetric] refl refl e])
    from True n have "pos p1 = pos p + 1" by (auto simp: Next_def)
    with ih Next_adv [OF n] show ?thesis
      by (auto intro: adv_trans split: if_splits)
  next
    case False
    with "1.prems" show ?thesis by (auto simp: block_braces.simps [of p] adv_refl)
  qed
qed

lemma block_brackets_adv:
  "block_brackets p res = (s, p') \<Longrightarrow> adv p p' \<and> length s + pos p \<le> pos p' + length res"
proof (induction p res rule: block_brackets.induct)
  case (1 p res)
  show ?case
  proof (cases "pos p < length (source p) \<and> Peek p \<noteq> wch CHR '']''")
    case True
    obtain c p1 where n: "Next p = (c, p1)" by (cases "Next p")
    from "1.prems" True n have e: "block_brackets p1 (res @ [c]) = (s, p')"
      by (simp add: block_brackets.simps [of p])
    have ih: "adv p1 p' \<and> length s + pos p1 \<le> pos p' + length (res @ [c])"
      by (rule "1.IH" [OF True n [symmetric] e])
    from True n have "pos p1 = pos p + 1" by (auto simp: Next_def)
    with ih Next_adv [OF n] show ?thesis
      by (auto intro: adv_trans)
  next
    case False
    with "1.prems" show ?thesis by (auto simp: block_brackets.simps [of p] adv_refl)
  qed
qed

lemma ParseBlockStr_adv:
  assumes "ParseBlockStr p = (s, p')"
  shows "adv p p' \<and> length s + pos p \<le> pos p'"
proof -
  obtain c p1 where n: "Next p = (c, p1)" by (cases "Next p")
  have a1: "adv p p1" by (rule Next_adv [OF n])
  show ?thesis
  proof (cases "Peek p = wch CHR ''{''")
    case True
    with assms n have "block_braces p1 1 [] = (s, p')" by (simp add: ParseBlockStr_def)
    from block_braces_adv [OF this] a1 show ?thesis
      by (auto simp: adv_def)
  next
    case nb: False
    show ?thesis
    proof (cases "Peek p = wch CHR ''[''")
      case True
      obtain res p2 where b: "block_brackets p1 [] = (res, p2)" by (cases "block_brackets p1 []")
      obtain c2 p3 where n2: "Next p2 = (c2, p3)" by (cases "Next p2")
      from assms nb True n b n2 have "s = res" "p' = (if pos p2 < length (source p2) then p3 else p2)"
        by (auto simp: ParseBlockStr_def)
      with block_brackets_adv [OF b] a1 Next_adv [OF n2] show ?thesis
        by (auto simp: adv_def)
    next
      case False
      with nb assms n a1 show ?thesis
        by (auto simp: ParseBlockStr_def adv_def Next_def split: if_splits)
    qed
  qed
qed

subsection \<open>Items and commands\<close>

text \<open>
  A nested parse runs in a parser of its own, built on an extracted string, and only its
  row is used.  The functions below take that nested parse as the argument \<open>sub\<close>;
  \<open>Parse\<close> passes itself for it.
\<close>

type_synonym subparse = "Parser \<Rightarrow> error + MathNode"

definition backslash :: wchar where
  "backslash = 0x5C"

function read_alpha :: "Locale \<Rightarrow> Parser \<Rightarrow> wstring \<Rightarrow> wstring \<times> Parser" where
  "read_alpha L p cmd =
     (if iswalpha L (Peek p) then (case Next p of (c, p1) \<Rightarrow> read_alpha L p1 (cmd @ [c]))
      else (cmd, p))"
  by pat_completeness auto
termination
  by (relation "measure (\<lambda>(L, p, cmd). length (source p) - pos p)")
     (auto simp: Next_def Peek_def iswalpha_def split: if_splits)

declare read_alpha.simps [simp del]

function read_number :: "Locale \<Rightarrow> Parser \<Rightarrow> wstring \<Rightarrow> wstring \<times> Parser" where
  "read_number L p num =
     (if iswdigit L (Peek p) \<or> Peek p = wch CHR ''.'' then
        (case Next p of (c, p1) \<Rightarrow> read_number L p1 (num @ [c]))
      else (num, p))"
  by pat_completeness auto
termination
  by (relation "measure (\<lambda>(L, p, num). length (source p) - pos p)")
     (auto simp: Next_def Peek_def iswdigit_def wch_def split: if_splits)

declare read_number.simps [simp del]

definition read_delim :: "Parser \<Rightarrow> wstring \<times> Parser" where
  "read_delim p = (if Peek p \<noteq> 0 then (case Next p of (c, p1) \<Rightarrow> ([c], p1)) else ([], p))"

function scan_right :: "Parser \<Rightarrow> int \<Rightarrow> error + Parser" where
  "scan_right p depth =
     (if pos p < length (source p) then
        (case substr (source p) (pos p) 5 of
           Inl e \<Rightarrow> Inl e
         | Inr s5 \<Rightarrow>
             (let depth1 = (if s5 = backslash # wstr ''left'' then depth + 1 else depth)
              in case substr (source p) (pos p) 6 of
                   Inl e \<Rightarrow> Inl e
                 | Inr s6 \<Rightarrow>
                     if s6 = backslash # wstr ''right'' then
                       (if depth1 = 0 then Inr p
                        else scan_right (p\<lparr>pos := pos p + 1\<rparr>) (depth1 - 1))
                     else scan_right (p\<lparr>pos := pos p + 1\<rparr>) depth1))
      else Inr p)"
  by pat_completeness auto
termination
  by (relation "measure (\<lambda>(p, depth). length (source p) - pos p)") auto

declare scan_right.simps [simp del]

lemma read_alpha_adv:
  "read_alpha L p cmd = (s, p') \<Longrightarrow> adv p p' \<and> length s + pos p = pos p' + length cmd"
proof (induction L p cmd rule: read_alpha.induct)
  case (1 L p cmd)
  show ?case
  proof (cases "iswalpha L (Peek p)")
    case True
    obtain c p1 where n: "Next p = (c, p1)" by (cases "Next p")
    from "1.prems" True n have e: "read_alpha L p1 (cmd @ [c]) = (s, p')"
      by (simp add: read_alpha.simps [of L p])
    have ih: "adv p1 p' \<and> length s + pos p1 = pos p' + length (cmd @ [c])"
      by (rule "1.IH" [OF True n [symmetric] e])
    from True have "pos p < length (source p)"
      by (auto simp: iswalpha_def Peek_def split: if_splits)
    with n have "pos p1 = pos p + 1" by (auto simp: Next_def)
    with ih Next_adv [OF n] show ?thesis
      by (auto intro: adv_trans)
  next
    case False
    with "1.prems" show ?thesis by (auto simp: read_alpha.simps [of L p] adv_refl)
  qed
qed

lemma read_number_adv:
  "read_number L p num = (s, p') \<Longrightarrow> adv p p'"
proof (induction L p num rule: read_number.induct)
  case (1 L p num)
  show ?case
  proof (cases "iswdigit L (Peek p) \<or> Peek p = wch CHR ''.''")
    case True
    obtain c p1 where n: "Next p = (c, p1)" by (cases "Next p")
    from "1.prems" True n have e: "read_number L p1 (num @ [c]) = (s, p')"
      by (simp add: read_number.simps [of L p])
    have ih: "adv p1 p'"
      by (rule "1.IH" [OF True n [symmetric] e])
    with Next_adv [OF n] show ?thesis
      by (auto intro: adv_trans)
  next
    case False
    with "1.prems" show ?thesis by (auto simp: read_number.simps [of L p] adv_refl)
  qed
qed

lemma read_delim_adv: "read_delim p = (s, p') \<Longrightarrow> adv p p'"
  by (auto simp: read_delim_def adv_refl Next_adv split: if_splits prod.splits)

lemma substr_in_range: "start \<le> length s \<Longrightarrow> substr s start n = Inr (take n (drop start s))"
  by (simp add: substr_def)

lemma scan_right_adv: "\<exists>p'. scan_right p depth = Inr p' \<and> adv p p'"
proof (induction p depth rule: scan_right.induct)
  case (1 p depth)
  show ?case
  proof (cases "pos p < length (source p)")
    case True
    let ?s5 = "take 5 (drop (pos p) (source p))"
    let ?s6 = "take 6 (drop (pos p) (source p))"
    let ?d = "if ?s5 = backslash # wstr ''left'' then depth + 1 else depth"
    from True have s5: "substr (source p) (pos p) 5 = Inr ?s5"
      and s6: "substr (source p) (pos p) 6 = Inr ?s6"
      by (simp_all add: substr_in_range)
    have step: "adv p (p\<lparr>pos := pos p + 1\<rparr>)"
      using True by (simp add: adv_def)
    show ?thesis
    proof (cases "?s6 = backslash # wstr ''right''")
      case r: True
      show ?thesis
      proof (cases "?d = 0")
        case True
        with r s5 s6 \<open>pos p < length (source p)\<close> have "scan_right p depth = Inr p"
          by (simp add: scan_right.simps [of p depth] Let_def)
        then show ?thesis by (simp add: adv_refl)
      next
        case False
        from "1.IH"(1) [OF \<open>pos p < length (source p)\<close> s5 refl s6 r False]
        obtain p' where ih: "scan_right (p\<lparr>pos := pos p + 1\<rparr>) (?d - 1) = Inr p'"
          "adv (p\<lparr>pos := pos p + 1\<rparr>) p'" by blast
        from r False s5 s6 \<open>pos p < length (source p)\<close> ih(1) have "scan_right p depth = Inr p'"
          by (simp add: scan_right.simps [of p depth] Let_def)
        with adv_trans [OF step ih(2)] show ?thesis by simp
      qed
    next
      case False
      from "1.IH"(2) [OF \<open>pos p < length (source p)\<close> s5 refl s6 False]
      obtain p' where ih: "scan_right (p\<lparr>pos := pos p + 1\<rparr>) ?d = Inr p'"
        "adv (p\<lparr>pos := pos p + 1\<rparr>) p'" by blast
      from False s5 s6 \<open>pos p < length (source p)\<close> ih(1) have "scan_right p depth = Inr p'"
        by (simp add: scan_right.simps [of p depth] Let_def)
      with adv_trans [OF step ih(2)] show ?thesis by simp
    qed
  next
    case False
    then show ?thesis by (simp add: scan_right.simps [of p] adv_refl)
  qed
qed

text \<open>
  The end of the \<^verbatim>\<open>left\<close> branch: \<open>skip_right\<close> is
  \<^verbatim>\<open>if (source.substr(pos, 6) == L"\\right") pos += 6\<close>, and \<open>read_right_delim\<close> the two
  statements that fill \<^verbatim>\<open>rightDelim\<close>.
\<close>

definition skip_right :: "Parser \<Rightarrow> error + Parser" where
  "skip_right p =
     (case substr (source p) (pos p) 6 of
        Inl e \<Rightarrow> Inl e
      | Inr s6 \<Rightarrow> Inr (if s6 = backslash # wstr ''right'' then p\<lparr>pos := pos p + 6\<rparr> else p))"

definition read_right_delim :: "Parser \<Rightarrow> wstring \<times> Parser" where
  "read_right_delim p =
     (case read_delim p of (rightDelim, p1) \<Rightarrow>
        if length rightDelim = 0 \<and> pos p1 < length (source p1)
        then (case Next p1 of (c, p2) \<Rightarrow> (rightDelim @ [c], p2))
        else (rightDelim, p1))"

definition isFunction :: "wstring \<Rightarrow> bool" where
  "isFunction cmd =
     (cmd = wstr ''sin'' \<or> cmd = wstr ''cos'' \<or> cmd = wstr ''tan'' \<or>
      cmd = wstr ''log'' \<or> cmd = wstr ''ln'' \<or> cmd = wstr ''lg'' \<or> cmd = wstr ''exp'' \<or>
      cmd = wstr ''sinh'' \<or> cmd = wstr ''cosh'' \<or> cmd = wstr ''asin'' \<or> cmd = wstr ''acos'')"

text \<open>
  The three branches of \<^verbatim>\<open>ParseCommand\<close> that start nested parses, each from the state
  \<open>p1\<close> reached after the command name; \<open>fs\<close> is \<^verbatim>\<open>currentFontSize\<close>.
\<close>

definition command_left :: "subparse \<Rightarrow> Parser \<Rightarrow> error + (MathNode \<times> Parser)" where
  "command_left sub p1 =
     (let fs = currentFontSize p1 in
      (case read_delim p1 of (leftDelim, p2) \<Rightarrow>
       (let startPos = pos p2 in
        (case scan_right p2 0 of Inl e \<Rightarrow> Inl e | Inr p3 \<Rightarrow>
        (case substr (source p3) startPos (pos p3 - startPos) of Inl e \<Rightarrow> Inl e | Inr inner \<Rightarrow>
        (case sub (new_Parser (symbols p3) inner fs) of Inl e \<Rightarrow> Inl e | Inr content \<Rightarrow>
        (case skip_right p3 of Inl e \<Rightarrow> Inl e | Inr p4 \<Rightarrow>
        (case read_right_delim p4 of (rightDelim, p5) \<Rightarrow>
           Inr (ScalingFenceNode geo0 content leftDelim rightDelim, p5)))))))))"

definition command_frac :: "subparse \<Rightarrow> Parser \<Rightarrow> error + (MathNode \<times> Parser)" where
  "command_frac sub p1 =
     (let fs = currentFontSize p1 in
      (case ParseBlockStr p1 of (sN, p2) \<Rightarrow>
      (case ParseBlockStr p2 of (sD, p3) \<Rightarrow>
      (case sub (new_Parser (symbols p3) sN fs) of Inl e \<Rightarrow> Inl e | Inr num \<Rightarrow>
      (case sub (new_Parser (symbols p3) sD fs) of Inl e \<Rightarrow> Inl e | Inr den \<Rightarrow>
         Inr (FracNode geo0 num den fs, p3))))))"

definition command_sqrt :: "subparse \<Rightarrow> Parser \<Rightarrow> error + (MathNode \<times> Parser)" where
  "command_sqrt sub p1 =
     (let fs = currentFontSize p1 in
      if Peek p1 = wch CHR ''['' then
        (case ParseBlockStr p1 of (sI, p2) \<Rightarrow>
        (case sub (new_Parser (symbols p2) sI (times_0_6 fs)) of Inl e \<Rightarrow> Inl e | Inr index \<Rightarrow>
        (case ParseBlockStr p2 of (sC, p3) \<Rightarrow>
        (case sub (new_Parser (symbols p3) sC fs) of Inl e \<Rightarrow> Inl e | Inr child \<Rightarrow>
           Inr (SqrtNode geo0 child (Some index), p3)))))
      else
        (case ParseBlockStr p1 of (sC, p3) \<Rightarrow>
        (case sub (new_Parser (symbols p3) sC fs) of Inl e \<Rightarrow> Inl e | Inr child \<Rightarrow>
           Inr (SqrtNode geo0 child None, p3))))"

definition ParseCommand :: "Locale \<Rightarrow> subparse \<Rightarrow> Parser \<Rightarrow> error + (MathNode \<times> Parser)" where
  "ParseCommand L sub p =
     (case read_alpha L p [] of (cmd, p1) \<Rightarrow>
      (let fs = currentFontSize p1 in
       if cmd = wstr ''left'' then command_left sub p1
       else if cmd = wstr ''frac'' then command_frac sub p1
       else if cmd = wstr ''sqrt'' then command_sqrt sub p1
       else if cmd = wstr ''int'' then Inr (IntegralNode geo0 None None None fs, p1)
       else if cmd = wstr ''sum'' \<or> cmd = wstr ''prod'' then
         Inr (BigOperatorNode geo0 [0x2211] None None fs False, p1)
       else if cmd = wstr ''lim'' then
         Inr (BigOperatorNode geo0 (wstr ''lim'') None None fs True, p1)
       else if cmd = wstr ''mathrm'' then
         (case ParseBlockStr p1 of (content, p2) \<Rightarrow> Inr (TextNode geo0 content False fs 0, p2))
       else if cmd = wstr ''!'' then Inr (TextNode geo0 [] False fs (times_0_15 (- fs)), p1)
       else if cmd = wstr '','' then Inr (TextNode geo0 [] False fs (times_0_15 fs), p1)
       else if isFunction cmd then Inr (TextNode geo0 cmd False fs 0, p1)
       else (case map_of (symbols p1) cmd of
               Some glyph \<Rightarrow> Inr (TextNode geo0 glyph False fs 0, p1)
             | None \<Rightarrow> Inr (TextNode geo0 (wstr ''?'') False fs 0, p1))))"

lemma adv_in_range: "adv p q \<Longrightarrow> pos p \<le> length (source p) \<Longrightarrow> pos q \<le> length (source q)"
  by (auto simp: adv_def)

lemma block_shorter:
  assumes "ParseBlockStr q = (s, q')" and "0 < pos q" and "pos q \<le> length (source q)"
  shows "length s < length (source q)"
proof -
  from ParseBlockStr_adv [OF assms(1)] have "adv q q'" "length s + pos q \<le> pos q'"
    by simp_all
  with assms(2,3) show ?thesis by (auto simp: adv_def)
qed

lemma read_alpha_nonempty:
  assumes "read_alpha L p [] = (cmd, p1)" and "cmd \<noteq> []"
  shows "0 < pos p1 \<and> pos p1 \<le> length (source p1)"
proof -
  from read_alpha_adv [OF assms(1)] have a: "adv p p1" and l: "length cmd + pos p = pos p1"
    by simp_all
  from assms(2) l have "pos p < pos p1" by (cases cmd) auto
  with a show ?thesis by (auto simp: adv_def)
qed

lemma skip_right_adv:
  assumes "pos p \<le> length (source p)"
  shows "\<exists>p'. skip_right p = Inr p' \<and> adv p p'"
proof -
  let ?s6 = "take 6 (drop (pos p) (source p))"
  from assms have s: "substr (source p) (pos p) 6 = Inr ?s6" by (simp add: substr_def)
  show ?thesis
  proof (cases "?s6 = backslash # wstr ''right''")
    case r: True
    then have "length ?s6 = 6" by (simp add: wstr_def)
    then have "pos p + 6 \<le> length (source p)" by simp
    with s r show ?thesis by (simp add: skip_right_def adv_def)
  next
    case False
    with s show ?thesis by (simp add: skip_right_def adv_refl)
  qed
qed

lemma read_right_delim_adv: "read_right_delim p = (s, p') \<Longrightarrow> adv p p'"
proof -
  assume a: "read_right_delim p = (s, p')"
  obtain d p1 where rd: "read_delim p = (d, p1)" by (cases "read_delim p")
  obtain c p2 where n: "Next p1 = (c, p2)" by (cases "Next p1")
  from a rd n have "p' = p1 \<or> p' = p2"
    by (simp add: read_right_delim_def split: if_splits)
  with read_delim_adv [OF rd] Next_adv [OF n] show ?thesis
    by (auto intro: adv_trans)
qed

text \<open>
  Each branch runs its nested parses on strings shorter than the source and leaves the
  cursor where the scanning alone has put it.
\<close>

lemma command_left_form:
  assumes "0 < pos p1" and "pos p1 \<le> length (source p1)"
  shows "\<exists>inner p5 leftDelim rightDelim.
    length inner < length (source p1) \<and> adv p1 p5 \<and>
    (\<forall>sub. command_left sub p1 =
       (case sub (new_Parser (symbols p1) inner (currentFontSize p1)) of
          Inl e \<Rightarrow> Inl e
        | Inr content \<Rightarrow> Inr (ScalingFenceNode geo0 content leftDelim rightDelim, p5)))"
proof -
  obtain leftDelim p2 where rd: "read_delim p1 = (leftDelim, p2)" by (cases "read_delim p1")
  have a2: "adv p1 p2" by (rule read_delim_adv [OF rd])
  obtain p3 where sr: "scan_right p2 0 = Inr p3" and a3: "adv p2 p3"
    using scan_right_adv by blast
  have r2: "pos p2 \<le> length (source p2)" by (rule adv_in_range [OF a2 assms(2)])
  have r3: "pos p3 \<le> length (source p3)" by (rule adv_in_range [OF a3 r2])
  obtain p4 where sk: "skip_right p3 = Inr p4" and a4: "adv p3 p4"
    using skip_right_adv [OF r3] by blast
  obtain rightDelim p5 where rr: "read_right_delim p4 = (rightDelim, p5)"
    by (cases "read_right_delim p4")
  have a5: "adv p4 p5" by (rule read_right_delim_adv [OF rr])
  let ?inner = "take (pos p3 - pos p2) (drop (pos p2) (source p3))"
  from a3 r2 have ss: "substr (source p3) (pos p2) (pos p3 - pos p2) = Inr ?inner"
    by (simp add: substr_def adv_def)
  from a2 a3 assms have 1: "length ?inner < length (source p1)"
    by (auto simp: adv_def)
  from a2 a3 a4 a5 have 2: "adv p1 p5" by (blast intro: adv_trans)
  from a2 a3 have "symbols p3 = symbols p1" by (simp add: adv_def)
  with rd sr ss sk rr have 3: "\<forall>sub. command_left sub p1 =
       (case sub (new_Parser (symbols p1) ?inner (currentFontSize p1)) of
          Inl e \<Rightarrow> Inl e
        | Inr content \<Rightarrow> Inr (ScalingFenceNode geo0 content leftDelim rightDelim, p5))"
    by (simp add: command_left_def Let_def split: sum.splits)
  from 1 2 3 show ?thesis by blast
qed

lemma command_frac_form:
  assumes "0 < pos p1" and "pos p1 \<le> length (source p1)"
  shows "\<exists>sN sD p3.
    length sN < length (source p1) \<and> length sD < length (source p1) \<and> adv p1 p3 \<and>
    (\<forall>sub. command_frac sub p1 =
       (case sub (new_Parser (symbols p1) sN (currentFontSize p1)) of
          Inl e \<Rightarrow> Inl e
        | Inr num \<Rightarrow>
           (case sub (new_Parser (symbols p1) sD (currentFontSize p1)) of
              Inl e \<Rightarrow> Inl e
            | Inr den \<Rightarrow> Inr (FracNode geo0 num den (currentFontSize p1), p3))))"
proof -
  obtain sN p2 where b1: "ParseBlockStr p1 = (sN, p2)" by (cases "ParseBlockStr p1")
  obtain sD p3 where b2: "ParseBlockStr p2 = (sD, p3)" by (cases "ParseBlockStr p2")
  from ParseBlockStr_adv [OF b1] have a2: "adv p1 p2" by simp
  from ParseBlockStr_adv [OF b2] have a3: "adv p2 p3" by simp
  from a2 assms have r2: "0 < pos p2" "pos p2 \<le> length (source p2)" by (auto simp: adv_def)
  have 1: "length sN < length (source p1)" by (rule block_shorter [OF b1 assms])
  from block_shorter [OF b2 r2] a2 have 2: "length sD < length (source p1)" by (simp add: adv_def)
  from a2 a3 have 3: "adv p1 p3" by (rule adv_trans)
  from a2 a3 have "symbols p3 = symbols p1" by (simp add: adv_def)
  with b1 b2 have 4: "\<forall>sub. command_frac sub p1 =
       (case sub (new_Parser (symbols p1) sN (currentFontSize p1)) of
          Inl e \<Rightarrow> Inl e
        | Inr num \<Rightarrow>
           (case sub (new_Parser (symbols p1) sD (currentFontSize p1)) of
              Inl e \<Rightarrow> Inl e
            | Inr den \<Rightarrow> Inr (FracNode geo0 num den (currentFontSize p1), p3)))"
    by (simp add: command_frac_def Let_def split: sum.splits)
  from 1 2 3 4 show ?thesis by blast
qed

lemma command_sqrt_form:
  assumes "0 < pos p1" and "pos p1 \<le> length (source p1)"
  shows "\<exists>sI sC p3 fsI.
    length sI < length (source p1) \<and> length sC < length (source p1) \<and> adv p1 p3 \<and>
    (\<forall>sub. command_sqrt sub p1 =
       (if Peek p1 = wch CHR ''['' then
          (case sub (new_Parser (symbols p1) sI fsI) of
             Inl e \<Rightarrow> Inl e
           | Inr index \<Rightarrow>
              (case sub (new_Parser (symbols p1) sC (currentFontSize p1)) of
                 Inl e \<Rightarrow> Inl e
               | Inr child \<Rightarrow> Inr (SqrtNode geo0 child (Some index), p3)))
        else
          (case sub (new_Parser (symbols p1) sC (currentFontSize p1)) of
             Inl e \<Rightarrow> Inl e
           | Inr child \<Rightarrow> Inr (SqrtNode geo0 child None, p3))))"
proof (cases "Peek p1 = wch CHR ''[''")
  case True
  obtain sI p2 where b1: "ParseBlockStr p1 = (sI, p2)" by (cases "ParseBlockStr p1")
  obtain sC p3 where b2: "ParseBlockStr p2 = (sC, p3)" by (cases "ParseBlockStr p2")
  from ParseBlockStr_adv [OF b1] have a2: "adv p1 p2" by simp
  from ParseBlockStr_adv [OF b2] have a3: "adv p2 p3" by simp
  from a2 assms have r2: "0 < pos p2" "pos p2 \<le> length (source p2)" by (auto simp: adv_def)
  have 1: "length sI < length (source p1)" by (rule block_shorter [OF b1 assms])
  from block_shorter [OF b2 r2] a2 have 2: "length sC < length (source p1)" by (simp add: adv_def)
  from a2 a3 have 3: "adv p1 p3" by (rule adv_trans)
  from a2 a3 have "symbols p3 = symbols p1" "symbols p2 = symbols p1" by (simp_all add: adv_def)
  with b1 b2 True have 4: "\<forall>sub. command_sqrt sub p1 =
          (case sub (new_Parser (symbols p1) sI (times_0_6 (currentFontSize p1))) of
             Inl e \<Rightarrow> Inl e
           | Inr index \<Rightarrow>
              (case sub (new_Parser (symbols p1) sC (currentFontSize p1)) of
                 Inl e \<Rightarrow> Inl e
               | Inr child \<Rightarrow> Inr (SqrtNode geo0 child (Some index), p3)))"
    by (simp add: command_sqrt_def Let_def split: sum.splits)
  from 1 2 3 4 True show ?thesis by auto
next
  case False
  obtain sC p3 where b1: "ParseBlockStr p1 = (sC, p3)" by (cases "ParseBlockStr p1")
  from ParseBlockStr_adv [OF b1] have 3: "adv p1 p3" by simp
  have 1: "length sC < length (source p1)" by (rule block_shorter [OF b1 assms])
  from 3 have "symbols p3 = symbols p1" by (simp_all add: adv_def)
  with b1 False have 4: "\<forall>sub. command_sqrt sub p1 =
          (case sub (new_Parser (symbols p1) sC (currentFontSize p1)) of
             Inl e \<Rightarrow> Inl e
           | Inr child \<Rightarrow> Inr (SqrtNode geo0 child None, p3))"
    by (simp add: command_sqrt_def Let_def split: sum.splits)
  from 1 3 4 False show ?thesis by auto
qed


lemma length_source_new_Parser [simp]: "source (new_Parser tab s fs) = s"
  by (simp add: new_Parser_def)

text \<open>
  \<open>agree n sub sub'\<close>: the two nested parses give the same result on every parser whose
  source is shorter than \<open>n\<close>.  \<open>unfailing sub\<close>: the nested parse raises nothing.
\<close>

definition agree :: "nat \<Rightarrow> subparse \<Rightarrow> subparse \<Rightarrow> bool" where
  "agree n sub sub' = (\<forall>q. length (source q) < n \<longrightarrow> sub q = sub' q)"

definition unfailing :: "subparse \<Rightarrow> bool" where
  "unfailing sub = (\<forall>q. \<exists>n. sub q = Inr n)"

lemma ParseCommand_facts:
  shows ParseCommand_adv: "ParseCommand L sub p = Inr (n, p') \<Longrightarrow> adv p p'"
    and ParseCommand_agree:
      "agree (length (source p)) sub sub' \<Longrightarrow> ParseCommand L sub p = ParseCommand L sub' p"
    and ParseCommand_unfailing: "unfailing sub \<Longrightarrow> \<exists>r. ParseCommand L sub p = Inr r"
proof -
  obtain cmd p1 where ra: "read_alpha L p [] = (cmd, p1)" by (cases "read_alpha L p []")
  from read_alpha_adv [OF ra] have a1: "adv p p1" by simp
  then have len: "length (source p1) = length (source p)" by (simp add: adv_def)
  have ne: "cmd \<noteq> [] \<Longrightarrow> 0 < pos p1 \<and> pos p1 \<le> length (source p1)"
    by (rule read_alpha_nonempty [OF ra])
  have "(ParseCommand L sub p = Inr (n, p') \<longrightarrow> adv p p') \<and>
        (agree (length (source p)) sub sub' \<longrightarrow> ParseCommand L sub p = ParseCommand L sub' p) \<and>
        (unfailing sub \<longrightarrow> (\<exists>r. ParseCommand L sub p = Inr r))"
  proof (cases "cmd = wstr ''left''")
    case True
    then have "cmd \<noteq> []" by (simp add: wstr_def)
    from command_left_form ne [OF this] obtain inner p5 leftDelim rightDelim where
      f: "length inner < length (source p1)" "adv p1 p5"
        "\<forall>sub. command_left sub p1 =
           (case sub (new_Parser (symbols p1) inner (currentFontSize p1)) of
              Inl e \<Rightarrow> Inl e
            | Inr content \<Rightarrow> Inr (ScalingFenceNode geo0 content leftDelim rightDelim, p5))"
      by blast
    from ra True have e: "\<And>sub. ParseCommand L sub p = command_left sub p1"
      by (simp add: ParseCommand_def)
    from f(1) len have "agree (length (source p)) sub sub' \<Longrightarrow>
        sub (new_Parser (symbols p1) inner (currentFontSize p1)) =
        sub' (new_Parser (symbols p1) inner (currentFontSize p1))"
      by (simp add: agree_def)
    moreover have "unfailing sub \<Longrightarrow>
        \<exists>m. sub (new_Parser (symbols p1) inner (currentFontSize p1)) = Inr m"
      by (simp add: unfailing_def)
    ultimately show ?thesis
      using f(2,3) a1 by (auto simp: e split: sum.splits intro: adv_trans)
  next
    case nl: False
    show ?thesis
    proof (cases "cmd = wstr ''frac''")
      case True
      then have "cmd \<noteq> []" by (simp add: wstr_def)
      from command_frac_form ne [OF this] obtain sN sD p3 where
        f: "length sN < length (source p1)" "length sD < length (source p1)" "adv p1 p3"
          "\<forall>sub. command_frac sub p1 =
             (case sub (new_Parser (symbols p1) sN (currentFontSize p1)) of
                Inl e \<Rightarrow> Inl e
              | Inr num \<Rightarrow>
                 (case sub (new_Parser (symbols p1) sD (currentFontSize p1)) of
                    Inl e \<Rightarrow> Inl e
                  | Inr den \<Rightarrow> Inr (FracNode geo0 num den (currentFontSize p1), p3)))"
        by blast
      from ra nl True have e: "\<And>sub. ParseCommand L sub p = command_frac sub p1"
        by (simp add: ParseCommand_def)
      from f(1,2) len have "agree (length (source p)) sub sub' \<Longrightarrow>
          sub (new_Parser (symbols p1) sN (currentFontSize p1)) =
          sub' (new_Parser (symbols p1) sN (currentFontSize p1)) \<and>
          sub (new_Parser (symbols p1) sD (currentFontSize p1)) =
          sub' (new_Parser (symbols p1) sD (currentFontSize p1))"
        by (simp add: agree_def)
      moreover have "unfailing sub \<Longrightarrow>
          (\<exists>m. sub (new_Parser (symbols p1) sN (currentFontSize p1)) = Inr m) \<and>
          (\<exists>m. sub (new_Parser (symbols p1) sD (currentFontSize p1)) = Inr m)"
        by (simp add: unfailing_def)
      ultimately show ?thesis
        using f(3,4) a1 by (auto simp: e split: sum.splits intro: adv_trans)
    next
      case nf: False
      show ?thesis
      proof (cases "cmd = wstr ''sqrt''")
        case True
        then have "cmd \<noteq> []" by (simp add: wstr_def)
        from command_sqrt_form ne [OF this] obtain sI sC p3 fsI where
          f: "length sI < length (source p1)" "length sC < length (source p1)" "adv p1 p3"
            "\<forall>sub. command_sqrt sub p1 =
       (if Peek p1 = wch CHR ''['' then
          (case sub (new_Parser (symbols p1) sI fsI) of
             Inl e \<Rightarrow> Inl e
           | Inr index \<Rightarrow>
              (case sub (new_Parser (symbols p1) sC (currentFontSize p1)) of
                 Inl e \<Rightarrow> Inl e
               | Inr child \<Rightarrow> Inr (SqrtNode geo0 child (Some index), p3)))
        else
          (case sub (new_Parser (symbols p1) sC (currentFontSize p1)) of
             Inl e \<Rightarrow> Inl e
           | Inr child \<Rightarrow> Inr (SqrtNode geo0 child None, p3)))"
          by blast
        from ra nl nf True have e: "\<And>sub. ParseCommand L sub p = command_sqrt sub p1"
          by (simp add: ParseCommand_def)
        from f(1,2) len have "agree (length (source p)) sub sub' \<Longrightarrow>
            sub (new_Parser (symbols p1) sI fsI) = sub' (new_Parser (symbols p1) sI fsI) \<and>
            sub (new_Parser (symbols p1) sC (currentFontSize p1)) =
            sub' (new_Parser (symbols p1) sC (currentFontSize p1))"
          by (simp add: agree_def)
        moreover have "unfailing sub \<Longrightarrow>
            (\<exists>m. sub (new_Parser (symbols p1) sI fsI) = Inr m) \<and>
            (\<exists>m. sub (new_Parser (symbols p1) sC (currentFontSize p1)) = Inr m)"
          by (simp add: unfailing_def)
        ultimately show ?thesis
          using f(3,4) a1 by (auto simp: e split: sum.splits intro: adv_trans)
      next
        case ns: False
        obtain s1 p2 where b1: "ParseBlockStr p1 = (s1, p2)" by (cases "ParseBlockStr p1")
        from ParseBlockStr_adv [OF b1] have a2: "adv p1 p2" by simp
        from ra nl nf ns b1 have "\<exists>m q. (\<forall>sub. ParseCommand L sub p = Inr (m, q)) \<and> (q = p1 \<or> q = p2)"
          by (simp add: ParseCommand_def Let_def split: option.splits)
        then obtain m q where e: "\<And>sub. ParseCommand L sub p = Inr (m, q)" and q: "q = p1 \<or> q = p2"
          by blast
        from q a1 a2 have "adv p q" by (auto intro: adv_trans)
        then show ?thesis by (auto simp: e)
      qed
    qed
  qed
  then show "ParseCommand L sub p = Inr (n, p') \<Longrightarrow> adv p p'"
    and "agree (length (source p)) sub sub' \<Longrightarrow> ParseCommand L sub p = ParseCommand L sub' p"
    and "unfailing sub \<Longrightarrow> \<exists>r. ParseCommand L sub p = Inr r"
    by blast+
qed

definition ParseItem :: "Locale \<Rightarrow> subparse \<Rightarrow> Parser \<Rightarrow> error + (MathNode option \<times> Parser)" where
  "ParseItem L sub p =
     (if length (source p) \<le> pos p then Inr (None, p)
      else
        (let c = Peek p; fs = currentFontSize p in
         case Next p of (c0, p1) \<Rightarrow>
           if c = backslash then
             (case ParseCommand L sub p1 of Inl e \<Rightarrow> Inl e | Inr (n, p2) \<Rightarrow> Inr (Some n, p2))
           else if iswdigit L c then
             (case read_number L p1 [c] of (num, p2) \<Rightarrow> Inr (Some (TextNode geo0 num False fs 0), p2))
           else if iswalpha L c then Inr (Some (TextNode geo0 [c] True fs 0), p1)
           else Inr (Some (TextNode geo0 [c] False fs 0), p1)))"

lemma ParseItem_facts:
  shows ParseItem_adv:
      "ParseItem L sub p = Inr (x, p') \<Longrightarrow> pos p < length (source p) \<Longrightarrow> adv p p' \<and> pos p < pos p'"
    and ParseItem_agree:
      "agree (length (source p)) sub sub' \<Longrightarrow> ParseItem L sub p = ParseItem L sub' p"
    and ParseItem_unfailing: "unfailing sub \<Longrightarrow> \<exists>r. ParseItem L sub p = Inr r"
proof -
  obtain c0 p1 where n: "Next p = (c0, p1)" by (cases "Next p")
  have a1: "adv p p1" by (rule Next_adv [OF n])
  then have len: "length (source p1) = length (source p)" by (simp add: adv_def)
  obtain num p2 where rn: "read_number L p1 [Peek p] = (num, p2)"
    by (cases "read_number L p1 [Peek p]")
  show "agree (length (source p)) sub sub' \<Longrightarrow> ParseItem L sub p = ParseItem L sub' p"
    using ParseCommand_agree [of p1 sub sub' L] n len
    by (simp add: ParseItem_def Let_def)
  show "unfailing sub \<Longrightarrow> \<exists>r. ParseItem L sub p = Inr r"
    using ParseCommand_unfailing [of sub L p1] n rn
    by (auto simp: ParseItem_def Let_def)
  assume r: "ParseItem L sub p = Inr (x, p')" and lt: "pos p < length (source p)"
  from n lt have p1: "pos p1 = pos p + 1" by (auto simp: Next_def)
  from r n rn lt have "(\<exists>m. ParseCommand L sub p1 = Inr (m, p')) \<or> p' = p2 \<or> p' = p1"
    by (auto simp: ParseItem_def Let_def split: if_splits sum.splits)
  then have "adv p1 p'"
    using read_number_adv [OF rn] by (auto simp: adv_refl dest: ParseCommand_adv)
  with a1 p1 show "adv p p' \<and> pos p < pos p'"
    by (auto simp: adv_def)
qed

subsection \<open>Script attachment\<close>

text \<open>
  \<^verbatim>\<open>bigOp\<close> is the base seen as a big operator, or null.  A big operator receives the
  limit in its own member and stays the base; any other base is wrapped into a
  \<^verbatim>\<open>ScriptNode\<close> at the first suffix and that wrapper is the base from then on.
\<close>

fun attach_script :: "wchar \<Rightarrow> MathNode \<Rightarrow> MathNode \<Rightarrow> MathNode" where
  "attach_script type scriptContent (BigOperatorNode g opSymbol lower upper fontSize isTextOp) =
     (if type = wch CHR ''^''
      then BigOperatorNode g opSymbol lower (Some scriptContent) fontSize isTextOp
      else BigOperatorNode g opSymbol (Some scriptContent) upper fontSize isTextOp)"
| "attach_script type scriptContent (ScriptNode g base super sub) =
     (if type = wch CHR ''^''
      then ScriptNode g base (Some scriptContent) sub
      else ScriptNode g base super (Some scriptContent))"
| "attach_script type scriptContent base =
     (if type = wch CHR ''^''
      then ScriptNode geo0 base (Some scriptContent) None
      else ScriptNode geo0 base None (Some scriptContent))"

function CheckForScripts :: "subparse \<Rightarrow> MathNode \<Rightarrow> Parser \<Rightarrow> error + (MathNode \<times> Parser)" where
  "CheckForScripts sub base p =
     (if Peek p = wch CHR ''^'' \<or> Peek p = wch CHR ''_'' then
        (case Next p of (type, p1) \<Rightarrow>
        (case ParseBlockStr p1 of (s, p2) \<Rightarrow>
        (case sub ((new_Parser (symbols p) [] (times_0_7 (currentFontSize p)))\<lparr>source := s\<rparr>) of
           Inl e \<Rightarrow> Inl e
         | Inr scriptContent \<Rightarrow> CheckForScripts sub (attach_script type scriptContent base) p2)))
      else Inr (base, p))"
  by pat_completeness auto

lemma script_step:
  assumes "Peek p = wch CHR ''^'' \<or> Peek p = wch CHR ''_''"
    and "Next p = (type, p1)" and "ParseBlockStr p1 = (s, p2)"
  shows "adv p p2 \<and> pos p < pos p2 \<and> pos p2 \<le> length (source p) \<and> length s < length (source p)"
proof -
  from assms(1) have lt: "pos p < length (source p)"
    by (auto simp: Peek_def wch_def split: if_splits)
  with assms(2) have p1: "pos p1 = pos p + 1" "source p1 = source p" by (auto simp: Next_def)
  from ParseBlockStr_adv [OF assms(3)] have a: "adv p1 p2" "length s + pos p1 \<le> pos p2" by simp_all
  from Next_adv [OF assms(2)] a(1) have "adv p p2" by (rule adv_trans)
  with a p1 lt show ?thesis by (auto simp: adv_def)
qed

lemma script_step_measure:
  assumes "Peek p = wch CHR ''^'' \<or> Peek p = wch CHR ''_''"
    and "(type, p1) = Next p" and "(s, p2) = ParseBlockStr p1"
  shows "length (source p2) - pos p2 < length (source p) - pos p"
  using script_step [OF assms(1) assms(2) [symmetric] assms(3) [symmetric]]
  by (auto simp: adv_def)

termination CheckForScripts
  apply (relation "measure (\<lambda>(sub, base, p). length (source p) - pos p)")
   apply simp
  apply (simp only: in_measure prod.case)
  apply (erule script_step_measure)
   apply assumption+
  done

declare CheckForScripts.simps [simp del]

lemma CheckForScripts_adv:
  "CheckForScripts sub base p = Inr (n, p') \<Longrightarrow> adv p p'"
proof (induction sub base p rule: CheckForScripts.induct)
  case (1 sub base p)
  show ?case
  proof (cases "Peek p = wch CHR ''^'' \<or> Peek p = wch CHR ''_''")
    case True
    obtain type p1 where n: "Next p = (type, p1)" by (cases "Next p")
    obtain s p2 where b: "ParseBlockStr p1 = (s, p2)" by (cases "ParseBlockStr p1")
    let ?q = "(new_Parser (symbols p) [] (times_0_7 (currentFontSize p)))\<lparr>source := s\<rparr>"
    from "1.prems" True n b obtain content where
      c: "sub ?q = Inr content" and
      r: "CheckForScripts sub (attach_script type content base) p2 = Inr (n, p')"
      by (auto simp: CheckForScripts.simps [of sub base p] split: sum.splits)
    have "adv p2 p'"
      by (rule "1.IH" [OF True n [symmetric] b [symmetric] c r])
    with script_step [OF True n b] show ?thesis by (blast intro: adv_trans)
  next
    case False
    with "1.prems" show ?thesis
      by (auto simp: CheckForScripts.simps [of sub base p] adv_refl)
  qed
qed

lemma CheckForScripts_agree:
  "agree (length (source p)) sub sub' \<Longrightarrow> CheckForScripts sub base p = CheckForScripts sub' base p"
proof (induction sub base p rule: CheckForScripts.induct)
  case (1 sub base p)
  show ?case
  proof (cases "Peek p = wch CHR ''^'' \<or> Peek p = wch CHR ''_''")
    case True
    obtain type p1 where n: "Next p = (type, p1)" by (cases "Next p")
    obtain s p2 where b: "ParseBlockStr p1 = (s, p2)" by (cases "ParseBlockStr p1")
    let ?q = "(new_Parser (symbols p) [] (times_0_7 (currentFontSize p)))\<lparr>source := s\<rparr>"
    from script_step [OF True n b] have st: "source p2 = source p" "length s < length (source p)"
      by (auto simp: adv_def)
    from st(2) "1.prems" have eq: "sub ?q = sub' ?q" by (simp add: agree_def)
    show ?thesis
    proof (cases "sub ?q")
      case (Inl e)
      with eq have "sub ?q = Inl e" "sub' ?q = Inl e" by simp_all
      with True n b show ?thesis
        by (simp add: CheckForScripts.simps [of _ base p])
    next
      case (Inr content)
      from "1.prems" st(1) have "agree (length (source p2)) sub sub'" by simp
      from "1.IH" [OF True n [symmetric] b [symmetric] Inr this]
      have ih: "CheckForScripts sub (attach_script type content base) p2 =
            CheckForScripts sub' (attach_script type content base) p2" .
      from Inr eq have "sub ?q = Inr content" "sub' ?q = Inr content" by simp_all
      with ih True n b show ?thesis
        by (simp add: CheckForScripts.simps [of _ base p])
    qed
  next
    case False
    then show ?thesis by (simp add: CheckForScripts.simps [of _ base p])
  qed
qed

lemma CheckForScripts_unfailing:
  "unfailing sub \<Longrightarrow> \<exists>r. CheckForScripts sub base p = Inr r"
proof (induction sub base p rule: CheckForScripts.induct)
  case (1 sub base p)
  show ?case
  proof (cases "Peek p = wch CHR ''^'' \<or> Peek p = wch CHR ''_''")
    case True
    obtain type p1 where n: "Next p = (type, p1)" by (cases "Next p")
    obtain s p2 where b: "ParseBlockStr p1 = (s, p2)" by (cases "ParseBlockStr p1")
    let ?q = "(new_Parser (symbols p) [] (times_0_7 (currentFontSize p)))\<lparr>source := s\<rparr>"
    from "1.prems" obtain content where c: "sub ?q = Inr content"
      by (auto simp: unfailing_def)
    from "1.IH" [OF True n [symmetric] b [symmetric] c "1.prems"]
    obtain r where "CheckForScripts sub (attach_script type content base) p2 = Inr r" by blast
    with c True n b show ?thesis
      by (simp add: CheckForScripts.simps [of _ base p])
  next
    case False
    then show ?thesis by (simp add: CheckForScripts.simps [of _ base p])
  qed
qed

subsection \<open>The top-level loop\<close>

function Parse_loop :: "Locale \<Rightarrow> subparse \<Rightarrow> Parser \<Rightarrow> MathNode list \<Rightarrow> error + MathNode list" where
  "Parse_loop L sub p row =
     (if pos p < length (source p) then
        (let c = Peek p in
         if c = wch CHR ''}'' \<or> c = wch CHR '']'' then Inr row
         else
           (case ParseItem L sub p of
              Inl e \<Rightarrow> Inl e
            | Inr (None, p1) \<Rightarrow> Parse_loop L sub p1 row
            | Inr (Some node, p1) \<Rightarrow>
                (case CheckForScripts sub node p1 of
                   Inl e \<Rightarrow> Inl e
                 | Inr (node1, p2) \<Rightarrow> Parse_loop L sub p2 (row @ [node1]))))
      else Inr row)"
  by pat_completeness auto
termination
  by (relation "measure (\<lambda>(L, sub, p, row). length (source p) - pos p)")
     (auto dest!: ParseItem_adv CheckForScripts_adv simp: adv_def)

declare Parse_loop.simps [simp del]


lemma Parse_loop_agree:
  "agree (length (source p)) sub sub' \<Longrightarrow> Parse_loop L sub p row = Parse_loop L sub' p row"
proof (induction L sub p row rule: Parse_loop.induct)
  case (1 L sub p row)
  show ?case
  proof (cases "pos p < length (source p) \<and> \<not> (Peek p = wch CHR ''}'' \<or> Peek p = wch CHR '']'')")
    case False
    then show ?thesis by (auto simp: Parse_loop.simps [of L _ p row] Let_def)
  next
    case True
    then have lt: "pos p < length (source p)"
      and nt: "\<not> (Peek p = wch CHR ''}'' \<or> Peek p = wch CHR '']'')" by simp_all
    have item: "ParseItem L sub' p = ParseItem L sub p"
      by (rule ParseItem_agree [OF "1.prems", symmetric])
    show ?thesis
    proof (cases "ParseItem L sub p")
      case (Inl e)
      with item lt nt show ?thesis by (simp add: Parse_loop.simps [of L _ p row] Let_def)
    next
      case (Inr xp)
      obtain x p1 where xp: "xp = (x, p1)" by (cases xp)
      from ParseItem_adv [OF Inr [unfolded xp] lt] have a1: "adv p p1" by simp
      then have s1: "source p1 = source p" by (simp add: adv_def)
      show ?thesis
      proof (cases x)
        case None
        from "1.prems" s1 have "agree (length (source p1)) sub sub'" by simp
        from "1.IH"(1) [OF lt refl nt Inr xp [symmetric] None this]
        have "Parse_loop L sub p1 row = Parse_loop L sub' p1 row" .
        with Inr xp None item lt nt show ?thesis
          by (simp add: Parse_loop.simps [of L _ p row] Let_def)
      next
        case (Some node)
        from "1.prems" s1 have ag1: "agree (length (source p1)) sub sub'" by simp
        have scr: "CheckForScripts sub' node p1 = CheckForScripts sub node p1"
          by (rule CheckForScripts_agree [OF ag1, symmetric])
        show ?thesis
        proof (cases "CheckForScripts sub node p1")
          case cl: (Inl e)
          with scr Inr xp Some item lt nt show ?thesis
            by (simp add: Parse_loop.simps [of L _ p row] Let_def)
        next
          case cr: (Inr np)
          obtain node1 p2 where np: "np = (node1, p2)" by (cases np)
          from CheckForScripts_adv [OF cr [unfolded np]] s1 have "source p2 = source p"
            by (simp add: adv_def)
          with "1.prems" have "agree (length (source p2)) sub sub'" by simp
          from "1.IH"(2) [OF lt refl nt Inr xp [symmetric] Some cr np [symmetric] this]
          have "Parse_loop L sub p2 (row @ [node1]) = Parse_loop L sub' p2 (row @ [node1])" .
          with cr np scr Inr xp Some item lt nt show ?thesis
            by (simp add: Parse_loop.simps [of L _ p row] Let_def)
        qed
      qed
    qed
  qed
qed

lemma Parse_loop_cong [fundef_cong]:
  assumes "L = L'" and "p = p'" and "row = row'"
    and "\<And>q. length (source q) < length (source p') \<Longrightarrow> sub q = sub' q"
  shows "Parse_loop L sub p row = Parse_loop L' sub' p' row'"
  using assms Parse_loop_agree [of p' sub sub' L' row'] by (simp add: agree_def)

lemma Parse_loop_unfailing:
  "unfailing sub \<Longrightarrow> \<exists>r. Parse_loop L sub p row = Inr r"
proof (induction L sub p row rule: Parse_loop.induct)
  case (1 L sub p row)
  show ?case
  proof (cases "pos p < length (source p) \<and> \<not> (Peek p = wch CHR ''}'' \<or> Peek p = wch CHR '']'')")
    case False
    then show ?thesis by (auto simp: Parse_loop.simps [of L _ p row] Let_def)
  next
    case True
    then have lt: "pos p < length (source p)"
      and nt: "\<not> (Peek p = wch CHR ''}'' \<or> Peek p = wch CHR '']'')" by simp_all
    from ParseItem_unfailing [OF "1.prems"] obtain xp where Inr: "ParseItem L sub p = Inr xp"
      by blast
    obtain x p1 where xp: "xp = (x, p1)" by (cases xp)
    show ?thesis
    proof (cases x)
      case None
      from "1.IH"(1) [OF lt refl nt Inr xp [symmetric] None "1.prems"]
      obtain r where "Parse_loop L sub p1 row = Inr r" by blast
      with Inr xp None lt nt show ?thesis
        by (simp add: Parse_loop.simps [of L _ p row] Let_def)
    next
      case (Some node)
      from CheckForScripts_unfailing [OF "1.prems"] obtain np where
        cr: "CheckForScripts sub node p1 = Inr np" by blast
      obtain node1 p2 where np: "np = (node1, p2)" by (cases np)
      from "1.IH"(2) [OF lt refl nt Inr xp [symmetric] Some cr np [symmetric] "1.prems"]
      obtain r where "Parse_loop L sub p2 (row @ [node1]) = Inr r" by blast
      with cr np Inr xp Some lt nt show ?thesis
        by (simp add: Parse_loop.simps [of L _ p row] Let_def)
    qed
  qed
qed

text \<open>
  \<^verbatim>\<open>Parser::Parse\<close>: the loop, started on an empty row, with \<open>Parse\<close> itself for the
  nested parses.  Every nested parse runs on a string shorter than the source, which is
  what makes the recursion well-founded.
\<close>

function Parse :: "Locale \<Rightarrow> Parser \<Rightarrow> error + MathNode" where
  "Parse L p =
     (case Parse_loop L (Parse L) p [] of
        Inl e \<Rightarrow> Inl e
      | Inr row \<Rightarrow> Inr (RowNode geo0 row))"
  by pat_completeness auto
termination
  by (relation "measure (\<lambda>(L, p). length (source p))") auto

declare Parse.simps [simp del]


section \<open>Evaluating the parser on given markup\<close>

lemma InitSymbols_idem [simp]: "InitSymbols (InitSymbols tab) = InitSymbols tab"
  by (simp add: InitSymbols_def symbol_table_def)

lemma iswalpha_ascii:
  "standard_locale L \<Longrightarrow> c < 128 \<Longrightarrow> iswalpha L c = (c \<noteq> 0 \<and> ascii_letter c)"
  by (simp add: standard_locale_def iswalpha_def)

lemma iswdigit_ascii:
  "standard_locale L \<Longrightarrow> c < 128 \<Longrightarrow> iswdigit L c = (c \<noteq> 0 \<and> ascii_digit c)"
  by (simp add: standard_locale_def iswdigit_def)

lemma C_locale_standard: "standard_locale C_locale"
  by (simp add: standard_locale_def C_locale_def)

lemmas parse_eval =
  Parse.simps Parse_loop.simps CheckForScripts.simps ParseItem_def ParseCommand_def
  command_left_def command_frac_def command_sqrt_def
  read_alpha.simps read_number.simps read_delim_def scan_right.simps skip_right_def
  read_right_delim_def ParseBlockStr_def block_braces.simps block_brackets.simps
  Peek_def Next_def new_Parser_def substr_def isFunction_def backslash_def
  wstr_def wch_def iswalpha_ascii iswdigit_ascii ascii_letter_def ascii_digit_def Let_def

section \<open>Script suffixes in either order\<close>

text \<open>
  C3.  The markup \<^verbatim>\<open>x^2_3\<close> and the markup \<^verbatim>\<open>x_3^2\<close> parse to the same tree: a row
  holding one \<^verbatim>\<open>ScriptNode\<close> whose base is the node parsed for \<^verbatim>\<open>x\<close>, whose superscript
  is the parse of \<^verbatim>\<open>2\<close> and whose subscript is the parse of \<^verbatim>\<open>3\<close>, the two scripts
  being parsed at the script size \<^verbatim>\<open>(int)(fs * 0.7)\<close>.  The order of the two suffixes
  makes no difference.
\<close>

theorem script_suffix_order:
  assumes "standard_locale L"
  shows "\<exists>base super sub.
    Parse L (new_Parser tab (wstr ''x'') fs) = Inr (RowNode geo0 [base]) \<and>
    Parse L (new_Parser tab (wstr ''2'') (times_0_7 fs)) = Inr super \<and>
    Parse L (new_Parser tab (wstr ''3'') (times_0_7 fs)) = Inr sub \<and>
    Parse L (new_Parser tab (wstr ''x^2_3'') fs) =
      Inr (RowNode geo0 [ScriptNode geo0 base (Some super) (Some sub)]) \<and>
    Parse L (new_Parser tab (wstr ''x_3^2'') fs) =
      Inr (RowNode geo0 [ScriptNode geo0 base (Some super) (Some sub)])"
proof (intro exI conjI)
  show "Parse L (new_Parser tab (wstr ''x'') fs) =
      Inr (RowNode geo0 [TextNode geo0 (wstr ''x'') True fs 0])"
    using assms by (simp add: parse_eval)
  show "Parse L (new_Parser tab (wstr ''2'') (times_0_7 fs)) =
      Inr (RowNode geo0 [TextNode geo0 (wstr ''2'') False (times_0_7 fs) 0])"
    using assms by (simp add: parse_eval)
  show "Parse L (new_Parser tab (wstr ''3'') (times_0_7 fs)) =
      Inr (RowNode geo0 [TextNode geo0 (wstr ''3'') False (times_0_7 fs) 0])"
    using assms by (simp add: parse_eval)
  show "Parse L (new_Parser tab (wstr ''x^2_3'') fs) =
      Inr (RowNode geo0 [ScriptNode geo0 (TextNode geo0 (wstr ''x'') True fs 0)
        (Some (RowNode geo0 [TextNode geo0 (wstr ''2'') False (times_0_7 fs) 0]))
        (Some (RowNode geo0 [TextNode geo0 (wstr ''3'') False (times_0_7 fs) 0]))])"
    using assms by (simp add: parse_eval)
  show "Parse L (new_Parser tab (wstr ''x_3^2'') fs) =
      Inr (RowNode geo0 [ScriptNode geo0 (TextNode geo0 (wstr ''x'') True fs 0)
        (Some (RowNode geo0 [TextNode geo0 (wstr ''2'') False (times_0_7 fs) 0]))
        (Some (RowNode geo0 [TextNode geo0 (wstr ''3'') False (times_0_7 fs) 0]))])"
    using assms by (simp add: parse_eval)
qed

theorem script_suffix_order_witness:
  "standard_locale C_locale \<and>
   Parse C_locale (new_Parser [] (wstr ''x^2_3'') 28) =
   Parse C_locale (new_Parser [] (wstr ''x_3^2'') 28)"
  using script_suffix_order [OF C_locale_standard, where tab = "[]" and fs = 28]
  by (auto simp: C_locale_standard)

section \<open>The summation example\<close>

text \<open>
  C4, as the specification states it: the markup \<^verbatim>\<open>\sum_{i=1}^{n} i\<close> parses to a row of
  exactly two children.  The parser has no rule that skips blanks, so the blank before the
  last \<^verbatim>\<open>i\<close> is an item of its own and the row has three children.
\<close>

theorem sum_example_counterexample:
  "map_sum id (length \<circ> children_of)
     (Parse C_locale (new_Parser [] (backslash # wstr ''sum_{i=1}^{n} i'') 28)) = Inr 3"
  using C_locale_standard by (simp add: parse_eval)

text \<open>
  C4, amended: the markup \<^verbatim>\<open>\sum_{i=1}^{n} i\<close> parses to a row of exactly three children:
  a \<^verbatim>\<open>BigOperatorNode\<close> with the summation glyph whose lower limit is the parse of
  \<^verbatim>\<open>i=1\<close> and whose upper limit is the parse of \<^verbatim>\<open>n\<close> (both at the script size), an
  upright \<^verbatim>\<open>TextNode\<close> holding the blank, and an italic \<^verbatim>\<open>TextNode\<close> with text \<^verbatim>\<open>i\<close>.
\<close>

theorem sum_example:
  assumes "standard_locale L"
  shows "\<exists>lower upper.
    Parse L (new_Parser tab (wstr ''i=1'') (times_0_7 fs)) = Inr lower \<and>
    Parse L (new_Parser tab (wstr ''n'') (times_0_7 fs)) = Inr upper \<and>
    Parse L (new_Parser tab (backslash # wstr ''sum_{i=1}^{n} i'') fs) =
      Inr (RowNode geo0
        [BigOperatorNode geo0 [0x2211] (Some lower) (Some upper) fs False,
         TextNode geo0 (wstr '' '') False fs 0,
         TextNode geo0 (wstr ''i'') True fs 0])"
proof (intro exI conjI)
  show "Parse L (new_Parser tab (wstr ''i=1'') (times_0_7 fs)) =
      Inr (RowNode geo0
        [TextNode geo0 (wstr ''i'') True (times_0_7 fs) 0,
         TextNode geo0 (wstr ''='') False (times_0_7 fs) 0,
         TextNode geo0 (wstr ''1'') False (times_0_7 fs) 0])"
    using assms by (simp add: parse_eval)
  show "Parse L (new_Parser tab (wstr ''n'') (times_0_7 fs)) =
      Inr (RowNode geo0 [TextNode geo0 (wstr ''n'') True (times_0_7 fs) 0])"
    using assms by (simp add: parse_eval)
  show "Parse L (new_Parser tab (backslash # wstr ''sum_{i=1}^{n} i'') fs) =
      Inr (RowNode geo0
        [BigOperatorNode geo0 [0x2211]
           (Some (RowNode geo0
             [TextNode geo0 (wstr ''i'') True (times_0_7 fs) 0,
              TextNode geo0 (wstr ''='') False (times_0_7 fs) 0,
              TextNode geo0 (wstr ''1'') False (times_0_7 fs) 0]))
           (Some (RowNode geo0 [TextNode geo0 (wstr ''n'') True (times_0_7 fs) 0]))
           fs False,
         TextNode geo0 (wstr '' '') False fs 0,
         TextNode geo0 (wstr ''i'') True fs 0])"
    using assms by (simp add: parse_eval)
qed

theorem sum_example_witness:
  "standard_locale C_locale \<and>
   map_sum id (map isTextNode \<circ> children_of)
     (Parse C_locale (new_Parser [] (backslash # wstr ''sum_{i=1}^{n} i'') 28)) =
   Inr [False, True, True]"
  using sum_example [OF C_locale_standard, where tab = "[]" and fs = 28]
  by (auto simp: C_locale_standard)

section \<open>The fraction example\<close>

text \<open>
  C5, as the specification states it: in the parse of \<^verbatim>\<open>\frac{1}{2}\<close> the numerator and the
  denominator are each a \<^verbatim>\<open>TextNode\<close>.  Both are what \<^verbatim>\<open>Parse\<close> returns for the block, and
  that is always a \<^verbatim>\<open>RowNode\<close>: here a row around the one digit.
\<close>

theorem frac_example_counterexample:
  "Parse C_locale (new_Parser [] (backslash # wstr ''frac{1}{2}'') 28) =
     Inr (RowNode geo0
       [FracNode geo0
          (RowNode geo0 [TextNode geo0 (wstr ''1'') False 28 0])
          (RowNode geo0 [TextNode geo0 (wstr ''2'') False 28 0]) 28]) \<and>
   \<not> isTextNode (RowNode geo0 [TextNode geo0 (wstr ''1'') False 28 0]) \<and>
   \<not> isTextNode (RowNode geo0 [TextNode geo0 (wstr ''2'') False 28 0])"
  using C_locale_standard by (simp add: parse_eval)

text \<open>
  C5, amended: the markup \<^verbatim>\<open>\frac{1}{2}\<close> parses to a row holding one \<^verbatim>\<open>FracNode\<close> whose
  numerator and denominator are each a row holding one single-digit \<^verbatim>\<open>TextNode\<close>.  After
  \<^verbatim>\<open>Measure\<close>, for every renderer, the fraction's width is the larger of the two measured
  widths plus 10, its ascent the numerator's height plus 2, and its height the sum of the
  two heights plus 4.
\<close>

theorem frac_example:
  assumes "standard_locale L"
  shows "\<exists>num den.
    num = RowNode geo0 [TextNode geo0 (wstr ''1'') False fs 0] \<and>
    den = RowNode geo0 [TextNode geo0 (wstr ''2'') False fs 0] \<and>
    Parse L (new_Parser tab (backslash # wstr ''frac{1}{2}'') fs) =
      Inr (RowNode geo0 [FracNode geo0 num den fs]) \<and>
    (\<forall>r. \<exists>g1 num1 den1 r1 r2.
       Measure num r = (num1, r1) \<and> Measure den r1 = (den1, r2) \<and>
       Measure (FracNode geo0 num den fs) r = (FracNode g1 num1 den1 fs, r2) \<and>
       width g1 = max (width (geo num1)) (width (geo den1)) + 10 \<and>
       ascent g1 = height (geo num1) + 2 \<and>
       height g1 = height (geo num1) + height (geo den1) + 4)"
proof (intro exI conjI allI)
  show "Parse L (new_Parser tab (backslash # wstr ''frac{1}{2}'') fs) =
      Inr (RowNode geo0
        [FracNode geo0
           (RowNode geo0 [TextNode geo0 (wstr ''1'') False fs 0])
           (RowNode geo0 [TextNode geo0 (wstr ''2'') False fs 0]) fs])"
    using assms by (simp add: parse_eval)
next
  fix r
  let ?num = "RowNode geo0 [TextNode geo0 (wstr ''1'') False fs 0]"
  let ?den = "RowNode geo0 [TextNode geo0 (wstr ''2'') False fs 0]"
  let ?m1 = "Measure ?num r"
  let ?m2 = "Measure ?den (snd ?m1)"
  let ?g = "mk_geo (max (width (geo (fst ?m1))) (width (geo (fst ?m2))) + 10)
                   (height (geo (fst ?m1)) + height (geo (fst ?m2)) + 4)
                   (height (geo (fst ?m1)) + 2)"
  show "Measure ?num r = (fst ?m1, snd ?m1)" by simp
  show "Measure ?den (snd ?m1) = (fst ?m2, snd ?m2)" by simp
  show "Measure (FracNode geo0 ?num ?den fs) r = (FracNode ?g (fst ?m1) (fst ?m2) fs, snd ?m2)"
    by (simp add: split_beta del: Measure.simps(1))
  show "width ?g = max (width (geo (fst ?m1))) (width (geo (fst ?m2))) + 10"
    by (simp add: mk_geo_def)
  show "ascent ?g = height (geo (fst ?m1)) + 2"
    by (simp add: mk_geo_def)
  show "height ?g = height (geo (fst ?m1)) + height (geo (fst ?m2)) + 4"
    by (simp add: mk_geo_def)
qed simp_all

theorem frac_example_witness:
  "standard_locale C_locale \<and>
   map_sum id (length \<circ> children_of)
     (Parse C_locale (new_Parser [] (backslash # wstr ''frac{1}{2}'') 28)) = Inr 1"
  using frac_example [OF C_locale_standard, where tab = "[]" and fs = 28]
  by (auto simp: C_locale_standard)

section \<open>Unknown commands\<close>

lemma Parse_unfailing: "\<exists>root. Parse L p = Inr root"
proof (induction L p rule: Parse.induct)
  case (1 L p)
  define sub where "sub = (\<lambda>q. if length (source q) < length (source p) then Parse L q
                                else Inr (RowNode geo0 []))"
  from "1.IH" have "unfailing sub"
    by (simp add: unfailing_def sub_def)
  then obtain row where "Parse_loop L sub p [] = Inr row"
    using Parse_loop_unfailing by blast
  moreover have "Parse_loop L (Parse L) p [] = Parse_loop L sub p []"
    by (rule Parse_loop_agree) (simp add: agree_def sub_def)
  ultimately show ?case
    by (simp add: Parse.simps [of L p])
qed

text \<open>
  C9.  \<^verbatim>\<open>ParseCommand\<close> reads the command name \<open>cmd\<close> as the longest run of letters at the
  cursor.  When the name is none of \<^verbatim>\<open>left\<close>, \<^verbatim>\<open>frac\<close>, \<^verbatim>\<open>sqrt\<close>, \<^verbatim>\<open>int\<close>, \<^verbatim>\<open>sum\<close>,
  \<^verbatim>\<open>prod\<close>, \<^verbatim>\<open>lim\<close>, \<^verbatim>\<open>mathrm\<close>, \<^verbatim>\<open>!\<close>, \<^verbatim>\<open>,\<close>, none of the function names and no key
  of the symbol table, the result is an upright \<^verbatim>\<open>TextNode\<close> holding \<^verbatim>\<open>?\<close> at the parser's
  font size with no offset.  And \<^verbatim>\<open>Parse\<close> raises nothing: from every parser state, for
  every source string, it returns a row.
\<close>

theorem unknown_command_placeholder:
  "(read_alpha L p [] = (cmd, p1) \<and>
    cmd \<notin> set (map wstr [''left'', ''frac'', ''sqrt'', ''int'', ''sum'', ''prod'', ''lim'',
                          ''mathrm'', ''!'', '','']) \<and>
    \<not> isFunction cmd \<and> map_of (symbols p) cmd = None \<longrightarrow>
    ParseCommand L sub p = Inr (TextNode geo0 (wstr ''?'') False (currentFontSize p) 0, p1)) \<and>
   (\<exists>root. Parse L q = Inr root)"
proof (intro conjI impI)
  assume a: "read_alpha L p [] = (cmd, p1) \<and>
    cmd \<notin> set (map wstr [''left'', ''frac'', ''sqrt'', ''int'', ''sum'', ''prod'', ''lim'',
                          ''mathrm'', ''!'', '','']) \<and>
    \<not> isFunction cmd \<and> map_of (symbols p) cmd = None"
  then have ra: "read_alpha L p [] = (cmd, p1)" by simp
  from read_alpha_adv [OF ra] have "symbols p1 = symbols p" "currentFontSize p1 = currentFontSize p"
    by (simp_all add: adv_def)
  with a show "ParseCommand L sub p =
      Inr (TextNode geo0 (wstr ''?'') False (currentFontSize p) 0, p1)"
    by (simp add: ParseCommand_def)
next
  show "\<exists>root. Parse L q = Inr root" by (rule Parse_unfailing)
qed

theorem unknown_command_placeholder_witness:
  "read_alpha C_locale
     \<lparr>source = backslash # wstr ''foo+1'', pos = 1, currentFontSize = 28, symbols = symbol_table\<rparr> []
     = (wstr ''foo'',
        \<lparr>source = backslash # wstr ''foo+1'', pos = 4, currentFontSize = 28, symbols = symbol_table\<rparr>) \<and>
   ParseCommand C_locale (Parse C_locale)
     \<lparr>source = backslash # wstr ''foo+1'', pos = 1, currentFontSize = 28, symbols = symbol_table\<rparr>
     = Inr (TextNode geo0 (wstr ''?'') False 28 0,
        \<lparr>source = backslash # wstr ''foo+1'', pos = 4, currentFontSize = 28, symbols = symbol_table\<rparr>)"
proof -
  let ?p = "\<lparr>source = backslash # wstr ''foo+1'', pos = 1, currentFontSize = 28,
              symbols = symbol_table\<rparr>"
  let ?p1 = "\<lparr>source = backslash # wstr ''foo+1'', pos = 4, currentFontSize = 28,
               symbols = symbol_table\<rparr>"
  have ra: "read_alpha C_locale ?p [] = (wstr ''foo'', ?p1)"
    using C_locale_standard by (simp add: parse_eval)
  have nk: "wstr ''foo'' \<notin> set (map wstr [''left'', ''frac'', ''sqrt'', ''int'', ''sum'', ''prod'',
                          ''lim'', ''mathrm'', ''!'', '',''])"
    by (simp add: wstr_def wch_def)
  have nf: "\<not> isFunction (wstr ''foo'')"
    by (simp add: isFunction_def wstr_def wch_def)
  have ns: "map_of (symbols ?p) (wstr ''foo'') = None"
    by (simp add: symbol_table_def wstr_def wch_def)
  from unknown_command_placeholder [of C_locale ?p "wstr ''foo''" ?p1 "Parse C_locale"] ra nk nf ns
  show ?thesis by simp
qed

section \<open>The spacing commands\<close>

text \<open>
  A command name holds letters only, so \<^verbatim>\<open>ParseCommand\<close> never takes the branches for
  \<^verbatim>\<open>!\<close> and \<^verbatim>\<open>,\<close>, the only places where a \<^verbatim>\<open>TextNode\<close> with an offset is made.
\<close>

lemma read_alpha_letters:
  "read_alpha L p acc = (cmd, p1) \<Longrightarrow> \<forall>c\<in>set acc. iswalpha L c \<Longrightarrow> \<forall>c\<in>set cmd. iswalpha L c"
proof (induction L p acc rule: read_alpha.induct)
  case (1 L p acc)
  show ?case
  proof (cases "iswalpha L (Peek p)")
    case True
    obtain c p2 where n: "Next p = (c, p2)" by (cases "Next p")
    from True have "pos p < length (source p)"
      by (auto simp: iswalpha_def Peek_def split: if_splits)
    with n have c: "c = Peek p" by (auto simp: Next_def Peek_def)
    from "1.prems"(1) True n have e: "read_alpha L p2 (acc @ [c]) = (cmd, p1)"
      by (simp add: read_alpha.simps [of L p])
    from "1.prems"(2) True c have "\<forall>c\<in>set (acc @ [c]). iswalpha L c" by simp
    from "1.IH" [OF True n [symmetric] e this] show ?thesis .
  next
    case False
    with "1.prems" show ?thesis by (simp add: read_alpha.simps [of L p])
  qed
qed

lemma spacing_commands_unreachable:
  assumes "standard_locale L" and "read_alpha L p [] = (cmd, p1)"
  shows "cmd \<noteq> wstr ''!'' \<and> cmd \<noteq> wstr '',''"
proof -
  from read_alpha_letters [OF assms(2)] have l: "\<forall>c\<in>set cmd. iswalpha L c" by simp
  from assms(1) have "\<not> iswalpha L (wch CHR ''!'')" "\<not> iswalpha L (wch CHR '','')"
    by (simp_all add: iswalpha_ascii wch_def ascii_letter_def)
  with l show ?thesis by (auto simp: wstr_def)
qed

section \<open>Ascent and height of a script node\<close>

lemma length_wstr [simp]: "length (wstr s) = length s"
  by (simp add: wstr_def)

lemma scale_values:
  "times_0_7 28 = 19" "times_0_8 28 = 22" "times_0_8 19 = 15"
  by (simp_all add: scale_eval)

lemma parse_x2:
  "Parse C_locale (new_Parser [] (wstr ''x^2'') 28) =
     Inr (RowNode geo0 [ScriptNode geo0 (TextNode geo0 (wstr ''x'') True 28 0)
        (Some (RowNode geo0 [TextNode geo0 (wstr ''2'') False 19 0])) None])"
  using C_locale_standard by (simp add: parse_eval scale_values)

text \<open>
  C2.  The specification's invariant is that after \<^verbatim>\<open>Measure\<close> every node has
  \<open>ascent \<le> height\<close>.  \<^verbatim>\<open>ScriptNode::Measure\<close> raises the ascent for a superscript but
  enlarges the height only in the subscript branch, so a base with a superscript alone can
  end with an ascent above its height.  For the markup \<^verbatim>\<open>x^2\<close> at size 28 and the renderer
  above, the measured \<^verbatim>\<open>ScriptNode\<close> has ascent 30 and height 28.
\<close>

theorem superscript_ascent_exceeds_height:
  "map_sum id (\<lambda>root. map geo (children_of (fst (Measure root sample_renderer))))
     (Parse C_locale (new_Parser [] (wstr ''x^2'') 28)) =
   Inr [\<lparr>width = 23, height = 28, ascent = 30\<rparr>]"
  by (simp add: parse_x2 render_eval scale_values cdiv_def)


section \<open>Fences\<close>

lemma cdiv2_between: "min 0 h \<le> cdiv h 2 \<and> cdiv h 2 \<le> max 0 h"
  by (cases "0 \<le> h") (auto simp: cdiv_def sgn_if)

lemma slanted_extent:
  fixes y h c :: int
  assumes "min 0 h \<le> c" and "c \<le> max 0 h"
  shows "y_extent [Line a y b (y + c), Line b (y + c) a (y + h)] =
     Some (min y (y + h), max y (y + h))"
  using assms by (simp add: y_extent_def) (auto simp: min_def max_def split: if_splits)

lemma upright_extent:
  fixes y h :: int
  shows "y_extent [Line a y a (y + h)] = Some (min y (y + h), max y (y + h))"
    and "y_extent [Line a y a (y + h), Line a y b y, Line a (y + h) b (y + h)] =
     Some (min y (y + h), max y (y + h))"
  by (simp_all add: y_extent_def) (auto simp: min_def max_def)

lemma left_delim_calls:
  "emitted (draw_left_delim left x y h) r =
     (if left = wstr ''|'' then [Line (x + 2) y (x + 2) (y + h)]
      else if left = wstr ''('' then
        [Line (x + 5) y (x + 1) (y + cdiv h 2), Line (x + 1) (y + cdiv h 2) (x + 5) (y + h)]
      else if left = wstr ''['' then
        [Line (x + 5) y (x + 5) (y + h), Line (x + 5) y (x + 10) y,
         Line (x + 5) (y + h) (x + 10) (y + h)]
      else [])"
  by (simp add: emitted_def draw_left_delim_def DrawLine_def)

lemma right_delim_calls:
  "emitted (draw_right_delim right x y w h) r =
     (if right = wstr ''|'' then [Line (x + w - 2) y (x + w - 2) (y + h)]
      else if right = wstr '')'' then
        [Line (x + w - 5) y (x + w - 1) (y + cdiv h 2),
         Line (x + w - 1) (y + cdiv h 2) (x + w - 5) (y + h)]
      else if right = wstr '']'' then
        [Line (x + w - 5) y (x + w - 5) (y + h), Line (x + w - 5) y (x + w - 10) y,
         Line (x + w - 5) (y + h) (x + w - 10) (y + h)]
      else [])"
  by (simp add: emitted_def draw_right_delim_def DrawLine_def)

lemma left_delim_extent:
  assumes "left \<in> {wstr ''|'', wstr ''('', wstr ''[''}"
  shows "y_extent (emitted (draw_left_delim left x y h) r) = Some (min y (y + h), max y (y + h))"
proof -
  from cdiv2_between [of h] have b: "min 0 h \<le> cdiv h 2" "cdiv h 2 \<le> max 0 h"
    by simp_all
  from assms consider "left = wstr ''|''" | "left = wstr ''(''" | "left = wstr ''[''"
    by auto
  then show ?thesis
  proof cases
    case 1
    then show ?thesis
      by (simp add: left_delim_calls upright_extent)
  next
    case 2
    have "wstr ''('' \<noteq> wstr ''|''" by (simp add: wstr_def wch_def)
    with 2 b show ?thesis
      by (simp add: left_delim_calls slanted_extent)
  next
    case 3
    have "wstr ''['' \<noteq> wstr ''|''" "wstr ''['' \<noteq> wstr ''(''"
      by (simp_all add: wstr_def wch_def)
    with 3 show ?thesis
      by (simp add: left_delim_calls upright_extent)
  qed
qed

lemma right_delim_extent:
  assumes "right \<in> {wstr ''|'', wstr '')'', wstr '']''}"
  shows "y_extent (emitted (draw_right_delim right x y w h) r) = Some (min y (y + h), max y (y + h))"
proof -
  from cdiv2_between [of h] have b: "min 0 h \<le> cdiv h 2" "cdiv h 2 \<le> max 0 h"
    by simp_all
  from assms consider "right = wstr ''|''" | "right = wstr '')''" | "right = wstr '']''"
    by auto
  then show ?thesis
  proof cases
    case 1
    then show ?thesis
      by (simp add: right_delim_calls upright_extent)
  next
    case 2
    have "wstr '')'' \<noteq> wstr ''|''" by (simp add: wstr_def wch_def)
    with 2 b show ?thesis
      by (simp add: right_delim_calls slanted_extent)
  next
    case 3
    have "wstr '']'' \<noteq> wstr ''|''" "wstr '']'' \<noteq> wstr '')''"
      by (simp_all add: wstr_def wch_def)
    with 3 show ?thesis
      by (simp add: right_delim_calls upright_extent)
  qed
qed

text \<open>
  C6.  For every content subtree, every pair of delimiter strings and every renderer, the
  measured \<^verbatim>\<open>ScalingFenceNode\<close> is 14 wider than its measured content and has the content's
  height and ascent.  \<^verbatim>\<open>Draw\<close> draws the content at \<open>x + 7\<close>, then the left and the right
  delimiter; the lines of each of the delimiters \<^verbatim>\<open>|\<close>, \<^verbatim>\<open>(\<close>, \<^verbatim>\<open>[\<close> on the left and
  \<^verbatim>\<open>|\<close>, \<^verbatim>\<open>)\<close>, \<^verbatim>\<open>]\<close> on the right reach from \<open>y\<close> to \<open>y + height\<close> and no further, where
  \<open>height\<close> is the measured height of the content.
\<close>

theorem fence_enclosure:
  "\<exists>g1 content1 r1.
     Measure content r = (content1, r1) \<and>
     Measure (ScalingFenceNode g content left right) r =
       (ScalingFenceNode g1 content1 left right, r1) \<and>
     width g1 = width (geo content1) + 14 \<and>
     height g1 = height (geo content1) \<and>
     ascent g1 = ascent (geo content1) \<and>
     (\<forall>rd x y.
        Draw (ScalingFenceNode g1 content1 left right) rd x y =
          draw_right_delim right x y (width g1) (height g1)
            (draw_left_delim left x y (height g1) (Draw content1 rd (x + 7) y)) \<and>
        (left \<in> {wstr ''|'', wstr ''('', wstr ''[''} \<longrightarrow>
           y_extent (emitted (draw_left_delim left x y (height g1)) rd) =
             Some (min y (y + height (geo content1)), max y (y + height (geo content1)))) \<and>
        (right \<in> {wstr ''|'', wstr '')'', wstr '']''} \<longrightarrow>
           y_extent (emitted (draw_right_delim right x y (width g1) (height g1)) rd) =
             Some (min y (y + height (geo content1)), max y (y + height (geo content1)))) \<and>
        (0 \<le> height (geo content1) \<longrightarrow>
           min y (y + height (geo content1)) = y \<and>
           max y (y + height (geo content1)) = y + height (geo content1)))"
proof -
  obtain content1 r1 where m: "Measure content r = (content1, r1)" by (cases "Measure content r")
  let ?g1 = "mk_geo (width (geo content1) + 14) (height (geo content1)) (ascent (geo content1))"
  have h: "height ?g1 = height (geo content1)" by (simp add: mk_geo_def)
  show ?thesis
  proof (intro exI conjI allI impI)
    show "Measure content r = (content1, r1)" by (rule m)
    show "Measure (ScalingFenceNode g content left right) r =
        (ScalingFenceNode ?g1 content1 left right, r1)"
      using m by simp
    show "width ?g1 = width (geo content1) + 14" by (simp add: mk_geo_def)
    show "height ?g1 = height (geo content1)" by (rule h)
    show "ascent ?g1 = ascent (geo content1)" by (simp add: mk_geo_def)
  next
    fix rd x y
    show "Draw (ScalingFenceNode ?g1 content1 left right) rd x y =
          draw_right_delim right x y (width ?g1) (height ?g1)
            (draw_left_delim left x y (height ?g1) (Draw content1 rd (x + 7) y))"
      by (simp add: Let_def)
  next
    fix rd x y
    assume "left \<in> {wstr ''|'', wstr ''('', wstr ''[''}"
    then show "y_extent (emitted (draw_left_delim left x y (height ?g1)) rd) =
             Some (min y (y + height (geo content1)), max y (y + height (geo content1)))"
      unfolding h by (rule left_delim_extent)
  next
    fix rd x y
    assume "right \<in> {wstr ''|'', wstr '')'', wstr '']''}"
    then show "y_extent (emitted (draw_right_delim right x y (width ?g1) (height ?g1)) rd) =
             Some (min y (y + height (geo content1)), max y (y + height (geo content1)))"
      unfolding h by (rule right_delim_extent)
  next
    fix rd :: Renderer and x y :: int
    assume "0 \<le> height (geo content1)"
    then show "min y (y + height (geo content1)) = y" by simp
  next
    fix rd :: Renderer and x y :: int
    assume "0 \<le> height (geo content1)"
    then show "max y (y + height (geo content1)) = y + height (geo content1)" by simp
  qed
qed


theorem fence_enclosure_witness:
  "wstr ''('' \<in> {wstr ''|'', wstr ''('', wstr ''[''} \<and>
   wstr '')'' \<in> {wstr ''|'', wstr '')'', wstr '']''} \<and>
   fst (Measure (ScalingFenceNode geo0 (TextNode geo0 (wstr ''x'') True 28 0) (wstr ''('') (wstr '')''))
          sample_renderer) =
     ScalingFenceNode \<lparr>width = 28, height = 28, ascent = 22\<rparr>
       (TextNode \<lparr>width = 14, height = 28, ascent = 22\<rparr> (wstr ''x'') True 28 0)
       (wstr ''('') (wstr '')'') \<and>
   y_extent (emitted (draw_left_delim (wstr ''('') 50 100 28) sample_renderer) = Some (100, 128) \<and>
   y_extent (emitted (draw_right_delim (wstr '')'') 50 100 28 28) sample_renderer) = Some (100, 128)"
proof -
  let ?c = "TextNode geo0 (wstr ''x'') True 28 0"
  from fence_enclosure [of ?c sample_renderer geo0 "wstr ''(''" "wstr '')''"]
  obtain g1 content1 r1 where
    m: "Measure ?c sample_renderer = (content1, r1)" and
    f: "Measure (ScalingFenceNode geo0 ?c (wstr ''('') (wstr '')'')) sample_renderer =
          (ScalingFenceNode g1 content1 (wstr ''('') (wstr '')''), r1)" and
    w: "width g1 = width (geo content1) + 14" and
    h: "height g1 = height (geo content1)" and
    a: "ascent g1 = ascent (geo content1)" and
    d: "\<forall>rd x y.
        Draw (ScalingFenceNode g1 content1 (wstr ''('') (wstr '')'')) rd x y =
          draw_right_delim (wstr '')'') x y (width g1) (height g1)
            (draw_left_delim (wstr ''('') x y (height g1) (Draw content1 rd (x + 7) y)) \<and>
        (wstr ''('' \<in> {wstr ''|'', wstr ''('', wstr ''[''} \<longrightarrow>
           y_extent (emitted (draw_left_delim (wstr ''('') x y (height g1)) rd) =
             Some (min y (y + height (geo content1)), max y (y + height (geo content1)))) \<and>
        (wstr '')'' \<in> {wstr ''|'', wstr '')'', wstr '']''} \<longrightarrow>
           y_extent (emitted (draw_right_delim (wstr '')'') x y (width g1) (height g1)) rd) =
             Some (min y (y + height (geo content1)), max y (y + height (geo content1)))) \<and>
        (0 \<le> height (geo content1) \<longrightarrow>
           min y (y + height (geo content1)) = y \<and>
           max y (y + height (geo content1)) = y + height (geo content1))"
    by blast
  from m have c1: "content1 = TextNode \<lparr>width = 14, height = 28, ascent = 22\<rparr> (wstr ''x'') True 28 0"
    by (simp add: render_eval scale_values cdiv_def)
  from w h a c1 have g1: "g1 = \<lparr>width = 28, height = 28, ascent = 22\<rparr>"
    by (cases g1) simp
  from d [rule_format, of sample_renderer 50 100] f c1 g1 show ?thesis
    by simp
qed


section \<open>Measuring twice, parsing twice\<close>

text \<open>
  \<open>same_metrics r r'\<close>: the two renderers answer every metric query alike; their font
  state and the calls they have received may differ.
\<close>

definition same_metrics :: "Renderer \<Rightarrow> Renderer \<Rightarrow> bool" where
  "same_metrics r r' = (textWidth r' = textWidth r \<and> textHeight r' = textHeight r)"

lemma same_metrics_refl [simp]: "same_metrics r r"
  by (simp add: same_metrics_def)

lemma same_metrics_trans: "same_metrics r r' \<Longrightarrow> same_metrics r' r'' \<Longrightarrow> same_metrics r r''"
  by (simp add: same_metrics_def)

lemma same_metrics_sym: "same_metrics r r' \<Longrightarrow> same_metrics r' r"
  by (simp add: same_metrics_def)

lemma same_metrics_font [simp]:
  "same_metrics r (SetFontStyle it (SetFontSize sz r'))  = same_metrics r r'"
  "same_metrics (SetFontStyle it (SetFontSize sz r)) r' = same_metrics r r'"
  by (simp_all add: same_metrics_def SetFontStyle_def SetFontSize_def)

lemma Measure_metrics:
  "same_metrics r (snd (Measure t r))"
  "same_metrics r (snd (snd (snd (snd (Measure_children cs r w a d)))))"
  "same_metrics r (snd (Measure_opt ochild r))"
proof (induct t r and cs r w a d and ochild r rule: Measure_Measure_children_Measure_opt.induct)
  case (1 g children r)
  then show ?case by (simp add: split_beta)
next
  case (2 g str italic fontSize hOffset r)
  show ?case by (simp add: Let_def)
next
  case (3 g num den fontSize r)
  obtain num1 r1 where m1: "Measure num r = (num1, r1)" by (cases "Measure num r")
  obtain den1 r2 where m2: "Measure den r1 = (den1, r2)" by (cases "Measure den r1")
  from 3(1) m1 have "same_metrics r r1" by simp
  moreover from 3(2) [OF m1 [symmetric]] m2 have "same_metrics r1 r2" by simp
  ultimately have "same_metrics r r2" by (rule same_metrics_trans)
  with m1 m2 show ?case by simp
next
  case (4 g base super sub r)
  obtain base1 r1 where m1: "Measure base r = (base1, r1)" by (cases "Measure base r")
  obtain super1 r2 where m2: "Measure_opt super r1 = (super1, r2)"
    by (cases "Measure_opt super r1")
  obtain sub1 r3 where m3: "Measure_opt sub r2 = (sub1, r3)" by (cases "Measure_opt sub r2")
  from 4(1) m1 have "same_metrics r r1" by simp
  moreover from 4(2) [OF m1 [symmetric]] m2 have "same_metrics r1 r2" by simp
  moreover from 4(3) [OF m1 [symmetric] m2 [symmetric]] m3 have "same_metrics r2 r3" by simp
  ultimately have "same_metrics r r3" by (blast intro: same_metrics_trans)
  with m1 m2 m3 show ?case by (simp add: Let_def)
next
  case (5 g opSymbol lower upper fontSize isTextOp r)
  let ?r1 = "SetFontStyle False (SetFontSize (if isTextOp then fontSize else times_1_5 fontSize) r)"
  obtain lower1 r2 where m2: "Measure_opt lower ?r1 = (lower1, r2)"
    by (cases "Measure_opt lower ?r1")
  obtain upper1 r3 where m3: "Measure_opt upper r2 = (upper1, r3)"
    by (cases "Measure_opt upper r2")
  from 5(1) [OF refl refl refl] m2 have "same_metrics r r2" by simp
  moreover from 5(2) [OF refl refl refl m2 [symmetric]] m3 have "same_metrics r2 r3" by simp
  ultimately have "same_metrics r r3" by (rule same_metrics_trans)
  with m2 m3 show ?case by (simp add: Let_def)
next
  case (6 g lower upper integrand baseSize r)
  let ?r1 = "SetFontStyle False (SetFontSize (times_1_5 baseSize) r)"
  obtain upper1 r2 where m2: "Measure_opt upper ?r1 = (upper1, r2)"
    by (cases "Measure_opt upper ?r1")
  obtain lower1 r3 where m3: "Measure_opt lower r2 = (lower1, r3)"
    by (cases "Measure_opt lower r2")
  from 6(1) [OF refl refl refl] m2 have "same_metrics r r2" by simp
  moreover from 6(2) [OF refl refl refl m2 [symmetric]] m3 have "same_metrics r2 r3" by simp
  ultimately have "same_metrics r r3" by (rule same_metrics_trans)
  with m2 m3 show ?case by (simp add: Let_def)
next
  case (7 g child index r)
  obtain child1 r1 where m1: "Measure child r = (child1, r1)" by (cases "Measure child r")
  obtain index1 r2 where m2: "Measure_opt index r1 = (index1, r2)"
    by (cases "Measure_opt index r1")
  from 7(1) m1 have "same_metrics r r1" by simp
  moreover from 7(2) [OF m1 [symmetric]] m2 have "same_metrics r1 r2" by simp
  ultimately have "same_metrics r r2" by (rule same_metrics_trans)
  with m1 m2 show ?case by (simp add: Let_def)
next
  case (8 g content left right r)
  then show ?case by (simp add: split_beta)
next
  case (9 r w maxAscent maxDescent)
  show ?case by simp
next
  case (10 c cs r w maxAscent maxDescent)
  obtain c1 r1 where m1: "Measure c r = (c1, r1)" by (cases "Measure c r")
  let ?w1 = "w + width (geo c1)"
  let ?a1 = "if maxAscent < ascent (geo c1) then ascent (geo c1) else maxAscent"
  let ?d1 = "if maxDescent < height (geo c1) - ascent (geo c1)
             then height (geo c1) - ascent (geo c1) else maxDescent"
  obtain cs1 w2 a2 d2 r2 where m2: "Measure_children cs r1 ?w1 ?a1 ?d1 = (cs1, w2, a2, d2, r2)"
    by (cases "Measure_children cs r1 ?w1 ?a1 ?d1") auto
  from 10(1) m1 have "same_metrics r r1" by simp
  moreover from 10(2) [OF m1 [symmetric] refl refl refl refl] m2 have "same_metrics r1 r2"
    by simp
  ultimately have "same_metrics r r2" by (rule same_metrics_trans)
  with m1 m2 show ?case by (simp add: Let_def)
next
  case (11 r)
  show ?case by simp
next
  case (12 n r)
  then show ?case by (simp add: split_beta)
qed


lemma metrics_step:
  assumes "same_metrics r r'"
  shows "same_metrics (snd (Measure t r)) (snd (Measure t' r'))"
    and "same_metrics (snd (Measure_opt ochild r)) (snd (Measure_opt ochild' r'))"
  using assms Measure_metrics(1) [of r t] Measure_metrics(1) [of r' t']
    Measure_metrics(3) [of r ochild] Measure_metrics(3) [of r' ochild']
  by (simp_all add: same_metrics_def)

lemma GetTextWidth_font [simp]:
  "GetTextWidth str (SetFontStyle it (SetFontSize sz r)) = textWidth r sz it str"
  by (simp add: GetTextWidth_def SetFontStyle_def SetFontSize_def)

lemma GetTextHeight_font [simp]:
  "GetTextHeight (SetFontStyle it (SetFontSize sz r)) = textHeight r sz it"
  by (simp add: GetTextHeight_def SetFontStyle_def SetFontSize_def)

text \<open>What the loop of \<^verbatim>\<open>RowNode::Measure\<close> leaves, without the renderer.\<close>

definition children_result ::
    "MathNode list \<times> int \<times> int \<times> int \<times> Renderer \<Rightarrow> MathNode list \<times> int \<times> int \<times> int" where
  "children_result x = (case x of (cs, w, a, d, r) \<Rightarrow> (cs, w, a, d))"

lemma children_result_simp [simp]: "children_result (cs, w, a, d, r) = (cs, w, a, d)"
  by (simp add: children_result_def)

lemma Measure_renderer_indep:
  "same_metrics r r' \<Longrightarrow> fst (Measure t r) = fst (Measure t r')"
  "same_metrics r r' \<Longrightarrow>
     children_result (Measure_children cs r w a d) = children_result (Measure_children cs r' w a d)"
  "same_metrics r r' \<Longrightarrow> fst (Measure_opt ochild r) = fst (Measure_opt ochild r')"
proof (induct t r and cs r w a d and ochild r arbitrary: r' and r' and r'
    rule: Measure_Measure_children_Measure_opt.induct)
  case (1 g children r)
  obtain cs1 w1 a1 d1 r1 where m: "Measure_children children r 0 0 0 = (cs1, w1, a1, d1, r1)"
    by (cases "Measure_children children r 0 0 0") auto
  obtain cs2 w2 a2 d2 r2 where m': "Measure_children children r' 0 0 0 = (cs2, w2, a2, d2, r2)"
    by (cases "Measure_children children r' 0 0 0") auto
  from 1(1) [OF 1(2)] m m' have "(cs1, w1, a1, d1) = (cs2, w2, a2, d2)" by simp
  with m m' show ?case by simp
next
  case (2 g str italic fontSize hOffset r)
  then show ?case by (simp add: Let_def same_metrics_def)
next
  case (3 g num den fontSize r)
  obtain num1 r1 where m1: "Measure num r = (num1, r1)" by (cases "Measure num r")
  obtain den1 r2 where m2: "Measure den r1 = (den1, r2)" by (cases "Measure den r1")
  obtain num1' r1' where m1': "Measure num r' = (num1', r1')" by (cases "Measure num r'")
  obtain den1' r2' where m2': "Measure den r1' = (den1', r2')" by (cases "Measure den r1'")
  from 3(1) [OF 3(3)] m1 m1' have e1: "num1 = num1'" by simp
  from metrics_step(1) [OF 3(3), of num num] m1 m1' have s1: "same_metrics r1 r1'" by simp
  from 3(2) [OF m1 [symmetric] s1] m2 m2' have e2: "den1 = den1'" by simp
  from m1 m2 m1' m2' e1 e2 show ?case by simp
next
  case (4 g base super sub r)
  obtain base1 r1 where m1: "Measure base r = (base1, r1)" by (cases "Measure base r")
  obtain super1 r2 where m2: "Measure_opt super r1 = (super1, r2)"
    by (cases "Measure_opt super r1")
  obtain sub1 r3 where m3: "Measure_opt sub r2 = (sub1, r3)" by (cases "Measure_opt sub r2")
  obtain base1' r1' where m1': "Measure base r' = (base1', r1')" by (cases "Measure base r'")
  obtain super1' r2' where m2': "Measure_opt super r1' = (super1', r2')"
    by (cases "Measure_opt super r1'")
  obtain sub1' r3' where m3': "Measure_opt sub r2' = (sub1', r3')"
    by (cases "Measure_opt sub r2'")
  from 4(1) [OF 4(4)] m1 m1' have e1: "base1 = base1'" by simp
  from metrics_step(1) [OF 4(4), of base base] m1 m1' have s1: "same_metrics r1 r1'" by simp
  from 4(2) [OF m1 [symmetric] s1] m2 m2' have e2: "super1 = super1'" by simp
  from metrics_step(2) [OF s1, of super super] m2 m2' have s2: "same_metrics r2 r2'" by simp
  from 4(3) [OF m1 [symmetric] m2 [symmetric] s2] m3 m3' have e3: "sub1 = sub1'" by simp
  from m1 m2 m3 m1' m2' m3' e1 e2 e3 show ?case by (simp add: Let_def)
next
  case (5 g opSymbol lower upper fontSize isTextOp r)
  let ?sz = "if isTextOp then fontSize else times_1_5 fontSize"
  let ?r1 = "SetFontStyle False (SetFontSize ?sz r)"
  let ?r1' = "SetFontStyle False (SetFontSize ?sz r')"
  obtain lower1 r2 where m2: "Measure_opt lower ?r1 = (lower1, r2)"
    by (cases "Measure_opt lower ?r1")
  obtain upper1 r3 where m3: "Measure_opt upper r2 = (upper1, r3)"
    by (cases "Measure_opt upper r2")
  obtain lower1' r2' where m2': "Measure_opt lower ?r1' = (lower1', r2')"
    by (cases "Measure_opt lower ?r1'")
  obtain upper1' r3' where m3': "Measure_opt upper r2' = (upper1', r3')"
    by (cases "Measure_opt upper r2'")
  from 5(3) have s1: "same_metrics ?r1 ?r1'" by simp
  from 5(3) have mt: "textWidth r' = textWidth r" "textHeight r' = textHeight r"
    by (simp_all add: same_metrics_def)
  from 5(1) [OF refl refl refl s1] m2 m2' have e2: "lower1 = lower1'" by simp
  from metrics_step(2) [OF s1, of lower lower] m2 m2' have s2: "same_metrics r2 r2'" by simp
  from 5(2) [OF refl refl refl m2 [symmetric] s2] m3 m3' have e3: "upper1 = upper1'" by simp
  from m2 m3 m2' m3' e2 e3 mt show ?case by (simp add: Let_def)
next
  case (6 g lower upper integrand baseSize r)
  let ?r1 = "SetFontStyle False (SetFontSize (times_1_5 baseSize) r)"
  let ?r1' = "SetFontStyle False (SetFontSize (times_1_5 baseSize) r')"
  obtain upper1 r2 where m2: "Measure_opt upper ?r1 = (upper1, r2)"
    by (cases "Measure_opt upper ?r1")
  obtain lower1 r3 where m3: "Measure_opt lower r2 = (lower1, r3)"
    by (cases "Measure_opt lower r2")
  obtain upper1' r2' where m2': "Measure_opt upper ?r1' = (upper1', r2')"
    by (cases "Measure_opt upper ?r1'")
  obtain lower1' r3' where m3': "Measure_opt lower r2' = (lower1', r3')"
    by (cases "Measure_opt lower r2'")
  from 6(3) have s1: "same_metrics ?r1 ?r1'" by simp
  from 6(3) have mt: "textWidth r' = textWidth r" "textHeight r' = textHeight r"
    by (simp_all add: same_metrics_def)
  from 6(1) [OF refl refl refl s1] m2 m2' have e2: "upper1 = upper1'" by simp
  from metrics_step(2) [OF s1, of upper upper] m2 m2' have s2: "same_metrics r2 r2'" by simp
  from 6(2) [OF refl refl refl m2 [symmetric] s2] m3 m3' have e3: "lower1 = lower1'" by simp
  from m2 m3 m2' m3' e2 e3 mt show ?case by (simp add: Let_def)
next
  case (7 g child index r)
  obtain child1 r1 where m1: "Measure child r = (child1, r1)" by (cases "Measure child r")
  obtain index1 r2 where m2: "Measure_opt index r1 = (index1, r2)"
    by (cases "Measure_opt index r1")
  obtain child1' r1' where m1': "Measure child r' = (child1', r1')" by (cases "Measure child r'")
  obtain index1' r2' where m2': "Measure_opt index r1' = (index1', r2')"
    by (cases "Measure_opt index r1'")
  from 7(1) [OF 7(3)] m1 m1' have e1: "child1 = child1'" by simp
  from metrics_step(1) [OF 7(3), of child child] m1 m1' have s1: "same_metrics r1 r1'" by simp
  from 7(2) [OF m1 [symmetric] s1] m2 m2' have e2: "index1 = index1'" by simp
  from m1 m2 m1' m2' e1 e2 show ?case by (simp add: Let_def)
next
  case (8 g content left right r)
  obtain c1 r1 where m1: "Measure content r = (c1, r1)" by (cases "Measure content r")
  obtain c1' r1' where m1': "Measure content r' = (c1', r1')" by (cases "Measure content r'")
  from 8(1) [OF 8(2)] m1 m1' have "c1 = c1'" by simp
  with m1 m1' show ?case by simp
next
  case (9 r w maxAscent maxDescent)
  show ?case by simp
next
  case (10 c cs r w maxAscent maxDescent)
  obtain c1 r1 where m1: "Measure c r = (c1, r1)" by (cases "Measure c r")
  obtain c1' r1' where m1': "Measure c r' = (c1', r1')" by (cases "Measure c r'")
  let ?w1 = "w + width (geo c1)"
  let ?a1 = "if maxAscent < ascent (geo c1) then ascent (geo c1) else maxAscent"
  let ?d1 = "if maxDescent < height (geo c1) - ascent (geo c1)
             then height (geo c1) - ascent (geo c1) else maxDescent"
  obtain cs1 w2 a2 d2 r2 where m2: "Measure_children cs r1 ?w1 ?a1 ?d1 = (cs1, w2, a2, d2, r2)"
    by (cases "Measure_children cs r1 ?w1 ?a1 ?d1") auto
  obtain cs1' w2' a2' d2' r2' where
    m2': "Measure_children cs r1' ?w1 ?a1 ?d1 = (cs1', w2', a2', d2', r2')"
    by (cases "Measure_children cs r1' ?w1 ?a1 ?d1") auto
  from 10(1) [OF 10(3)] m1 m1' have e1: "c1' = c1" by simp
  from metrics_step(1) [OF 10(3), of c c] m1 m1' have s1: "same_metrics r1 r1'" by simp
  from 10(2) [OF m1 [symmetric] refl refl refl refl s1] m2 m2'
  have e2: "(cs1, w2, a2, d2) = (cs1', w2', a2', d2')" by simp
  from m1 m1' e1 m2 m2' e2 show ?case by (simp add: Let_def)
next
  case (11 r)
  show ?case by simp
next
  case (12 n r)
  obtain n1 r1 where m1: "Measure n r = (n1, r1)" by (cases "Measure n r")
  obtain n1' r1' where m1': "Measure n r' = (n1', r1')" by (cases "Measure n r'")
  from 12(1) [OF 12(2)] m1 m1' have "n1 = n1'" by simp
  with m1 m1' show ?case by simp
qed


lemma Measure_again:
  "same_metrics r' r'' \<Longrightarrow> fst (Measure (fst (Measure t r)) r') = fst (Measure t r'')"
  "same_metrics r' r'' \<Longrightarrow>
     children_result (Measure_children (fst (Measure_children cs r w a d)) r' w' a' d') =
     children_result (Measure_children cs r'' w' a' d')"
  "same_metrics r' r'' \<Longrightarrow>
     fst (Measure_opt (fst (Measure_opt ochild r)) r') = fst (Measure_opt ochild r'')"
proof (induct t r and cs r w a d and ochild r
    arbitrary: r' r'' and r' r'' w' a' d' and r' r''
    rule: Measure_Measure_children_Measure_opt.induct)
  case (1 g children r)
  obtain cs1 w1 a1 d1 r1 where m: "Measure_children children r 0 0 0 = (cs1, w1, a1, d1, r1)"
    by (cases "Measure_children children r 0 0 0") auto
  obtain cs2 w2 a2 d2 r2 where k: "Measure_children cs1 r' 0 0 0 = (cs2, w2, a2, d2, r2)"
    by (cases "Measure_children cs1 r' 0 0 0") auto
  obtain cs3 w3 a3 d3 r3 where j: "Measure_children children r'' 0 0 0 = (cs3, w3, a3, d3, r3)"
    by (cases "Measure_children children r'' 0 0 0") auto
  from 1(1) [OF 1(2), of 0 0 0] m k j have "(cs2, w2, a2, d2) = (cs3, w3, a3, d3)" by simp
  with m k j show ?case by simp
next
  case (2 g str italic fontSize hOffset r)
  then show ?case by (simp add: Let_def same_metrics_def)
next
  case (3 g num den fontSize r)
  obtain num1 r1 where m1: "Measure num r = (num1, r1)" by (cases "Measure num r")
  obtain den1 r2 where m2: "Measure den r1 = (den1, r2)" by (cases "Measure den r1")
  obtain num2 s1 where k1: "Measure num1 r' = (num2, s1)" by (cases "Measure num1 r'")
  obtain den2 s2 where k2: "Measure den1 s1 = (den2, s2)" by (cases "Measure den1 s1")
  obtain num3 q1 where j1: "Measure num r'' = (num3, q1)" by (cases "Measure num r''")
  obtain den3 q2 where j2: "Measure den q1 = (den3, q2)" by (cases "Measure den q1")
  from 3(1) [OF 3(3)] m1 k1 j1 have e1: "num2 = num3" by simp
  from metrics_step(1) [OF 3(3), of num1 num] k1 j1 have s: "same_metrics s1 q1" by simp
  from 3(2) [OF m1 [symmetric] s] m2 k2 j2 have e2: "den2 = den3" by simp
  from m1 m2 k1 k2 j1 j2 e1 e2 show ?case by simp
next
  case (4 g base super sub r)
  obtain base1 r1 where m1: "Measure base r = (base1, r1)" by (cases "Measure base r")
  obtain super1 r2 where m2: "Measure_opt super r1 = (super1, r2)"
    by (cases "Measure_opt super r1")
  obtain sub1 r3 where m3: "Measure_opt sub r2 = (sub1, r3)" by (cases "Measure_opt sub r2")
  obtain base2 s1 where k1: "Measure base1 r' = (base2, s1)" by (cases "Measure base1 r'")
  obtain super2 s2 where k2: "Measure_opt super1 s1 = (super2, s2)"
    by (cases "Measure_opt super1 s1")
  obtain sub2 s3 where k3: "Measure_opt sub1 s2 = (sub2, s3)" by (cases "Measure_opt sub1 s2")
  obtain base3 q1 where j1: "Measure base r'' = (base3, q1)" by (cases "Measure base r''")
  obtain super3 q2 where j2: "Measure_opt super q1 = (super3, q2)"
    by (cases "Measure_opt super q1")
  obtain sub3 q3 where j3: "Measure_opt sub q2 = (sub3, q3)" by (cases "Measure_opt sub q2")
  from 4(1) [OF 4(4)] m1 k1 j1 have e1: "base2 = base3" by simp
  from metrics_step(1) [OF 4(4), of base1 base] k1 j1 have t1: "same_metrics s1 q1" by simp
  from 4(2) [OF m1 [symmetric] t1] m2 k2 j2 have e2: "super2 = super3" by simp
  from metrics_step(2) [OF t1, of super1 super] k2 j2 have t2: "same_metrics s2 q2" by simp
  from 4(3) [OF m1 [symmetric] m2 [symmetric] t2] m3 k3 j3 have e3: "sub2 = sub3" by simp
  from m1 m2 m3 k1 k2 k3 j1 j2 j3 e1 e2 e3 show ?case by (simp add: Let_def)
next
  case (5 g opSymbol lower upper fontSize isTextOp r)
  let ?sz = "if isTextOp then fontSize else times_1_5 fontSize"
  let ?r1 = "SetFontStyle False (SetFontSize ?sz r)"
  let ?s1 = "SetFontStyle False (SetFontSize ?sz r')"
  let ?q1 = "SetFontStyle False (SetFontSize ?sz r'')"
  obtain lower1 r2 where m2: "Measure_opt lower ?r1 = (lower1, r2)"
    by (cases "Measure_opt lower ?r1")
  obtain upper1 r3 where m3: "Measure_opt upper r2 = (upper1, r3)"
    by (cases "Measure_opt upper r2")
  obtain lower2 s2 where k2: "Measure_opt lower1 ?s1 = (lower2, s2)"
    by (cases "Measure_opt lower1 ?s1")
  obtain upper2 s3 where k3: "Measure_opt upper1 s2 = (upper2, s3)"
    by (cases "Measure_opt upper1 s2")
  obtain lower3 q2 where j2: "Measure_opt lower ?q1 = (lower3, q2)"
    by (cases "Measure_opt lower ?q1")
  obtain upper3 q3 where j3: "Measure_opt upper q2 = (upper3, q3)"
    by (cases "Measure_opt upper q2")
  from 5(3) have t1: "same_metrics ?s1 ?q1" by simp
  from 5(3) have mt: "textWidth r'' = textWidth r'" "textHeight r'' = textHeight r'"
    by (simp_all add: same_metrics_def)
  from 5(1) [OF refl refl refl t1] m2 k2 j2 have e2: "lower2 = lower3" by simp
  from metrics_step(2) [OF t1, of lower1 lower] k2 j2 have t2: "same_metrics s2 q2" by simp
  from 5(2) [OF refl refl refl m2 [symmetric] t2] m3 k3 j3 have e3: "upper2 = upper3" by simp
  from m2 m3 k2 k3 j2 j3 e2 e3 mt show ?case by (simp add: Let_def)
next
  case (6 g lower upper integrand baseSize r)
  let ?r1 = "SetFontStyle False (SetFontSize (times_1_5 baseSize) r)"
  let ?s1 = "SetFontStyle False (SetFontSize (times_1_5 baseSize) r')"
  let ?q1 = "SetFontStyle False (SetFontSize (times_1_5 baseSize) r'')"
  obtain upper1 r2 where m2: "Measure_opt upper ?r1 = (upper1, r2)"
    by (cases "Measure_opt upper ?r1")
  obtain lower1 r3 where m3: "Measure_opt lower r2 = (lower1, r3)"
    by (cases "Measure_opt lower r2")
  obtain upper2 s2 where k2: "Measure_opt upper1 ?s1 = (upper2, s2)"
    by (cases "Measure_opt upper1 ?s1")
  obtain lower2 s3 where k3: "Measure_opt lower1 s2 = (lower2, s3)"
    by (cases "Measure_opt lower1 s2")
  obtain upper3 q2 where j2: "Measure_opt upper ?q1 = (upper3, q2)"
    by (cases "Measure_opt upper ?q1")
  obtain lower3 q3 where j3: "Measure_opt lower q2 = (lower3, q3)"
    by (cases "Measure_opt lower q2")
  from 6(3) have t1: "same_metrics ?s1 ?q1" by simp
  from 6(3) have mt: "textWidth r'' = textWidth r'" "textHeight r'' = textHeight r'"
    by (simp_all add: same_metrics_def)
  from 6(1) [OF refl refl refl t1] m2 k2 j2 have e2: "upper2 = upper3" by simp
  from metrics_step(2) [OF t1, of upper1 upper] k2 j2 have t2: "same_metrics s2 q2" by simp
  from 6(2) [OF refl refl refl m2 [symmetric] t2] m3 k3 j3 have e3: "lower2 = lower3" by simp
  from m2 m3 k2 k3 j2 j3 e2 e3 mt show ?case by (simp add: Let_def)
next
  case (7 g child index r)
  obtain child1 r1 where m1: "Measure child r = (child1, r1)" by (cases "Measure child r")
  obtain index1 r2 where m2: "Measure_opt index r1 = (index1, r2)"
    by (cases "Measure_opt index r1")
  obtain child2 s1 where k1: "Measure child1 r' = (child2, s1)" by (cases "Measure child1 r'")
  obtain index2 s2 where k2: "Measure_opt index1 s1 = (index2, s2)"
    by (cases "Measure_opt index1 s1")
  obtain child3 q1 where j1: "Measure child r'' = (child3, q1)" by (cases "Measure child r''")
  obtain index3 q2 where j2: "Measure_opt index q1 = (index3, q2)"
    by (cases "Measure_opt index q1")
  from 7(1) [OF 7(3)] m1 k1 j1 have e1: "child2 = child3" by simp
  from metrics_step(1) [OF 7(3), of child1 child] k1 j1 have t1: "same_metrics s1 q1" by simp
  from 7(2) [OF m1 [symmetric] t1] m2 k2 j2 have e2: "index2 = index3" by simp
  from m1 m2 k1 k2 j1 j2 e1 e2 show ?case by (simp add: Let_def)
next
  case (8 g content left right r)
  obtain c1 r1 where m1: "Measure content r = (c1, r1)" by (cases "Measure content r")
  obtain c2 s1 where k1: "Measure c1 r' = (c2, s1)" by (cases "Measure c1 r'")
  obtain c3 q1 where j1: "Measure content r'' = (c3, q1)" by (cases "Measure content r''")
  from 8(1) [OF 8(2)] m1 k1 j1 have "c2 = c3" by simp
  with m1 k1 j1 show ?case by simp
next
  case (9 r w maxAscent maxDescent)
  show ?case by simp
next
  case (10 c cs r w maxAscent maxDescent)
  obtain c1 r1 where m1: "Measure c r = (c1, r1)" by (cases "Measure c r")
  let ?w1 = "w + width (geo c1)"
  let ?a1 = "if maxAscent < ascent (geo c1) then ascent (geo c1) else maxAscent"
  let ?d1 = "if maxDescent < height (geo c1) - ascent (geo c1)
             then height (geo c1) - ascent (geo c1) else maxDescent"
  obtain cs1 w2 a2 d2 r2 where m2: "Measure_children cs r1 ?w1 ?a1 ?d1 = (cs1, w2, a2, d2, r2)"
    by (cases "Measure_children cs r1 ?w1 ?a1 ?d1") auto
  obtain c2 s1 where k1: "Measure c1 r' = (c2, s1)" by (cases "Measure c1 r'")
  obtain c3 q1 where j1: "Measure c r'' = (c3, q1)" by (cases "Measure c r''")
  from 10(1) [OF 10(3)] m1 k1 j1 have e1: "c2 = c3" by simp
  from metrics_step(1) [OF 10(3), of c1 c] k1 j1 have t1: "same_metrics s1 q1" by simp
  let ?w1' = "w' + width (geo c3)"
  let ?a1' = "if a' < ascent (geo c3) then ascent (geo c3) else a'"
  let ?d1' = "if d' < height (geo c3) - ascent (geo c3)
             then height (geo c3) - ascent (geo c3) else d'"
  obtain cs2 x2 y2 z2 s2 where k2: "Measure_children cs1 s1 ?w1' ?a1' ?d1' = (cs2, x2, y2, z2, s2)"
    by (cases "Measure_children cs1 s1 ?w1' ?a1' ?d1'") auto
  obtain cs3 x3 y3 z3 q2 where j2: "Measure_children cs q1 ?w1' ?a1' ?d1' = (cs3, x3, y3, z3, q2)"
    by (cases "Measure_children cs q1 ?w1' ?a1' ?d1'") auto
  from 10(2) [OF m1 [symmetric] refl refl refl refl t1, of ?w1' ?a1' ?d1'] m2 k2 j2
  have e2: "(cs2, x2, y2, z2) = (cs3, x3, y3, z3)" by simp
  from m1 m2 k1 j1 e1 k2 j2 e2 show ?case by (simp add: Let_def)
next
  case (11 r)
  show ?case by simp
next
  case (12 n r)
  obtain n1 r1 where m1: "Measure n r = (n1, r1)" by (cases "Measure n r")
  obtain n2 s1 where k1: "Measure n1 r' = (n2, s1)" by (cases "Measure n1 r'")
  obtain n3 q1 where j1: "Measure n r'' = (n3, q1)" by (cases "Measure n r''")
  from 12(1) [OF 12(2)] m1 k1 j1 have "n2 = n3" by simp
  with m1 k1 j1 show ?case by simp
qed

text \<open>
  C7.  Measuring a tree and measuring the result again, with the renderer as the first pass
  left it or with any renderer that gives the same metric answers, leaves the width, height
  and ascent of every node as the first pass computed them.
\<close>

theorem Measure_idempotent:
  "fst (Measure (fst (Measure t r)) (snd (Measure t r))) = fst (Measure t r) \<and>
   (\<forall>r'. same_metrics r r' \<longrightarrow> fst (Measure (fst (Measure t r)) r') = fst (Measure t r))"
proof (intro conjI allI impI)
  show "fst (Measure (fst (Measure t r)) (snd (Measure t r))) = fst (Measure t r)"
    by (rule Measure_again(1)) (rule same_metrics_sym, rule Measure_metrics(1))
next
  fix r'
  assume "same_metrics r r'"
  then have "same_metrics r' r" by (rule same_metrics_sym)
  then show "fst (Measure (fst (Measure t r)) r') = fst (Measure t r)"
    by (rule Measure_again(1))
qed

theorem Measure_idempotent_witness:
  "same_metrics sample_renderer (sample_renderer\<lparr>rFontSize := 7, isItalic := True\<rparr>) \<and>
   fst (Measure
         (fst (Measure (FracNode geo0 (TextNode geo0 (wstr ''1'') False 28 0)
                          (TextNode geo0 (wstr ''2'') False 28 0) 28) sample_renderer))
         (sample_renderer\<lparr>rFontSize := 7, isItalic := True\<rparr>)) =
   FracNode \<lparr>width = 24, height = 60, ascent = 30\<rparr>
     (TextNode \<lparr>width = 14, height = 28, ascent = 22\<rparr> (wstr ''1'') False 28 0)
     (TextNode \<lparr>width = 14, height = 28, ascent = 22\<rparr> (wstr ''2'') False 28 0) 28"
proof -
  let ?t = "FracNode geo0 (TextNode geo0 (wstr ''1'') False 28 0)
              (TextNode geo0 (wstr ''2'') False 28 0) 28"
  let ?r' = "sample_renderer\<lparr>rFontSize := 7, isItalic := True\<rparr>"
  have s: "same_metrics sample_renderer ?r'" by (simp add: same_metrics_def)
  have v: "fst (Measure ?t sample_renderer) =
      FracNode \<lparr>width = 24, height = 60, ascent = 30\<rparr>
        (TextNode \<lparr>width = 14, height = 28, ascent = 22\<rparr> (wstr ''1'') False 28 0)
        (TextNode \<lparr>width = 14, height = 28, ascent = 22\<rparr> (wstr ''2'') False 28 0) 28"
    by (simp add: render_eval scale_values cdiv_def)
  from Measure_idempotent [of ?t sample_renderer] s
  have "fst (Measure (fst (Measure ?t sample_renderer)) ?r') = fst (Measure ?t sample_renderer)"
    by blast
  then have "fst (Measure (fst (Measure ?t sample_renderer)) ?r') =
      FracNode \<lparr>width = 24, height = 60, ascent = 30\<rparr>
        (TextNode \<lparr>width = 14, height = 28, ascent = 22\<rparr> (wstr ''1'') False 28 0)
        (TextNode \<lparr>width = 14, height = 28, ascent = 22\<rparr> (wstr ''2'') False 28 0) 28"
    by (simp only: v)
  with s show ?thesis by (rule conjI)
qed

text \<open>
  C8.  The first parser of a run fills the static symbol table and every later one finds it
  filled.  Parsing the same markup at the same font size a second time, with the table as
  the first parser left it, returns the same tree, and measuring that tree with two
  renderers that give the same metric answers yields the same width, height and ascent in
  every node.
\<close>

theorem parse_measure_deterministic:
  assumes "same_metrics r r'"
  shows "\<exists>root.
    Parse L (new_Parser tab s fs) = Inr root \<and>
    Parse L (new_Parser (symbols (new_Parser tab s fs)) s fs) = Inr root \<and>
    fst (Measure root r) = fst (Measure root r')"
proof -
  obtain root where p: "Parse L (new_Parser tab s fs) = Inr root"
    using Parse_unfailing by blast
  have "new_Parser (symbols (new_Parser tab s fs)) s fs = new_Parser tab s fs"
    by (simp add: new_Parser_def)
  with p have "Parse L (new_Parser (symbols (new_Parser tab s fs)) s fs) = Inr root"
    by simp
  moreover from assms have "fst (Measure root r) = fst (Measure root r')"
    by (rule Measure_renderer_indep(1))
  ultimately show ?thesis using p by blast
qed

theorem parse_measure_deterministic_witness:
  "same_metrics sample_renderer (sample_renderer\<lparr>rFontSize := 7, isItalic := True\<rparr>) \<and>
   Parse C_locale (new_Parser symbol_table (wstr ''x^2'') 28) =
   Parse C_locale (new_Parser [] (wstr ''x^2'') 28) \<and>
   map_sum id (\<lambda>root. fst (Measure root (sample_renderer\<lparr>rFontSize := 7, isItalic := True\<rparr>)))
     (Parse C_locale (new_Parser [] (wstr ''x^2'') 28)) =
   map_sum id (\<lambda>root. fst (Measure root sample_renderer))
     (Parse C_locale (new_Parser [] (wstr ''x^2'') 28))"
proof -
  let ?r' = "sample_renderer\<lparr>rFontSize := 7, isItalic := True\<rparr>"
  have s: "same_metrics sample_renderer ?r'" by (simp add: same_metrics_def)
  have t: "symbols (new_Parser [] (wstr ''x^2'') 28) = symbol_table"
    by (simp add: new_Parser_def InitSymbols_def)
  from parse_measure_deterministic [OF s, of C_locale "[]" "wstr ''x^2''" 28] s t
  show ?thesis by auto
qed


section \<open>Rows share a baseline\<close>

lemma Draw_children_index:
  "Draw_children cs r curX y rowAscent =
     foldl (\<lambda>rd i. Draw (cs ! i) rd
                       (curX + sum_list (map (width \<circ> geo) (take i cs)))
                       (y + (rowAscent - ascent (geo (cs ! i)))))
       r [0..<length cs]"
proof (induction cs arbitrary: r curX)
  case Nil
  show ?case by simp
next
  case (Cons c cs)
  have "[0..<length (c # cs)] = 0 # map Suc [0..<length cs]"
    by (simp add: upt_conv_Cons map_Suc_upt del: upt_Suc)
  then show ?case
    by (simp add: Cons.IH foldl_map add.assoc)
qed

lemma Measure_children_acc:
  "Measure_children cs r w a d = (cs1, w1, a1, d1, r1) \<Longrightarrow>
     length cs1 = length cs \<and> a1 = Max (insert a (set (map (ascent \<circ> geo) cs1)))"
proof (induction cs arbitrary: r w a d cs1 w1 a1 d1 r1)
  case Nil
  then show ?case by simp
next
  case (Cons c cs)
  obtain c1 r2 where m1: "Measure c r = (c1, r2)" by (cases "Measure c r")
  let ?w1 = "w + width (geo c1)"
  let ?a1 = "if a < ascent (geo c1) then ascent (geo c1) else a"
  let ?d1 = "if d < height (geo c1) - ascent (geo c1)
             then height (geo c1) - ascent (geo c1) else d"
  obtain cs2 w2 a2 d2 r3 where m2: "Measure_children cs r2 ?w1 ?a1 ?d1 = (cs2, w2, a2, d2, r3)"
    by (cases "Measure_children cs r2 ?w1 ?a1 ?d1") auto
  from Cons.prems m1 m2 have e: "cs1 = c1 # cs2" "a1 = a2"
    by (simp_all add: Let_def)
  from Cons.IH [OF m2] have ih: "length cs2 = length cs"
    "a2 = Max (insert ?a1 (set (map (ascent \<circ> geo) cs2)))" by simp_all
  have a1: "?a1 = max a (ascent (geo c1))" by (simp add: max_def)
  have "Max (insert (max a (ascent (geo c1))) (set (map (ascent \<circ> geo) cs2))) =
      Max (insert a (insert (ascent (geo c1)) (set (map (ascent \<circ> geo) cs2))))"
    by (cases "set (map (ascent \<circ> geo) cs2) = {}") (simp_all add: max.assoc)
  with e ih a1 show ?case by simp
qed


text \<open>\<open>nonneg_heights r\<close>: the renderer reports no negative line height.\<close>

definition nonneg_heights :: "Renderer \<Rightarrow> bool" where
  "nonneg_heights r = (\<forall>sz italic. 0 \<le> textHeight r sz italic)"

lemma nonneg_heights_same: "same_metrics r r' \<Longrightarrow> nonneg_heights r \<Longrightarrow> nonneg_heights r'"
  by (simp add: same_metrics_def nonneg_heights_def)

lemma nonneg_heights_font [simp]:
  "nonneg_heights (SetFontStyle it (SetFontSize sz r)) = nonneg_heights r"
  by (simp add: nonneg_heights_def SetFontStyle_def SetFontSize_def)

lemma nonneg_after:
  assumes "nonneg_heights r"
  shows "nonneg_heights (snd (Measure t r))" and "nonneg_heights (snd (Measure_opt ochild r))"
  using assms Measure_metrics(1) [of r t] Measure_metrics(3) [of r ochild]
  by (blast intro: nonneg_heights_same)+

lemma times_0_8_nonneg: "0 \<le> h \<Longrightarrow> 0 \<le> times_0_8 h"
  by (simp add: times_0_8_def int_times_double_def sgn_if)

lemma cdiv_nonneg: "0 \<le> a \<Longrightarrow> 0 \<le> b \<Longrightarrow> 0 \<le> cdiv a b"
  by (simp add: cdiv_def sgn_if pos_imp_zdiv_nonneg_iff)

lemma Measure_nonneg:
  "nonneg_heights r \<Longrightarrow>
     0 \<le> height (geo (fst (Measure t r))) \<and> 0 \<le> ascent (geo (fst (Measure t r)))"
  "nonneg_heights r \<Longrightarrow> 0 \<le> a \<Longrightarrow> 0 \<le> d \<Longrightarrow>
     (case Measure_children cs r w a d of
        (cs1, w1, a1, d1, r1) \<Rightarrow> 0 \<le> a1 \<and> 0 \<le> d1 \<and> (\<forall>c\<in>set cs1. 0 \<le> ascent (geo c)))"
  "nonneg_heights r \<Longrightarrow>
     0 \<le> opt_height (fst (Measure_opt ochild r)) \<and>
     (\<forall>n. fst (Measure_opt ochild r) = Some n \<longrightarrow> 0 \<le> height (geo n) \<and> 0 \<le> ascent (geo n))"
proof (induct t r and cs r w a d and ochild r
    rule: Measure_Measure_children_Measure_opt.induct)
  case (1 g children r)
  obtain cs1 w1 a1 d1 r1 where m: "Measure_children children r 0 0 0 = (cs1, w1, a1, d1, r1)"
    by (cases "Measure_children children r 0 0 0") auto
  from 1(1) [OF 1(2)] m have "0 \<le> a1 \<and> 0 \<le> d1" by simp
  with m show ?case by (simp add: mk_geo_def)
next
  case (2 g str italic fontSize hOffset r)
  then have "0 \<le> textHeight r fontSize italic" by (simp add: nonneg_heights_def)
  then show ?case by (simp add: Let_def mk_geo_def times_0_8_nonneg)
next
  case (3 g num den fontSize r)
  obtain num1 r1 where m1: "Measure num r = (num1, r1)" by (cases "Measure num r")
  obtain den1 r2 where m2: "Measure den r1 = (den1, r2)" by (cases "Measure den r1")
  from nonneg_after(1) [OF 3(3), of num] m1 have n1: "nonneg_heights r1" by simp
  from 3(1) [OF 3(3)] m1 have "0 \<le> height (geo num1)" by simp
  moreover from 3(2) [OF m1 [symmetric] n1] m2 have "0 \<le> height (geo den1)" by simp
  ultimately show ?case using m1 m2 by (simp add: mk_geo_def)
next
  case (4 g base super sub r)
  obtain base1 r1 where m1: "Measure base r = (base1, r1)" by (cases "Measure base r")
  obtain super1 r2 where m2: "Measure_opt super r1 = (super1, r2)"
    by (cases "Measure_opt super r1")
  obtain sub1 r3 where m3: "Measure_opt sub r2 = (sub1, r3)" by (cases "Measure_opt sub r2")
  from 4(1) [OF 4(4)] m1 have "0 \<le> height (geo base1)" "0 \<le> ascent (geo base1)" by simp_all
  with m1 m2 m3 show ?case
    by (auto simp: Let_def mk_geo_def max_def split: option.splits)
next
  case (5 g opSymbol lower upper fontSize isTextOp r)
  let ?sz = "if isTextOp then fontSize else times_1_5 fontSize"
  let ?r1 = "SetFontStyle False (SetFontSize ?sz r)"
  obtain lower1 r2 where m2: "Measure_opt lower ?r1 = (lower1, r2)"
    by (cases "Measure_opt lower ?r1")
  obtain upper1 r3 where m3: "Measure_opt upper r2 = (upper1, r3)"
    by (cases "Measure_opt upper r2")
  from 5(3) have n1: "nonneg_heights ?r1" by simp
  from nonneg_after(2) [OF n1, of lower] m2 have n2: "nonneg_heights r2" by simp
  from 5(3) have h: "0 \<le> textHeight r ?sz False" by (simp add: nonneg_heights_def)
  from 5(1) [OF refl refl refl n1] m2 have l: "0 \<le> opt_height lower1" by simp
  from 5(2) [OF refl refl refl m2 [symmetric] n2] m3 have u: "0 \<le> opt_height upper1" by simp
  from h have "0 \<le> times_0_8 (textHeight r ?sz False)" by (rule times_0_8_nonneg)
  with h l u m2 m3 show ?case by (simp add: Let_def mk_geo_def)
next
  case (6 g lower upper integrand baseSize r)
  let ?r1 = "SetFontStyle False (SetFontSize (times_1_5 baseSize) r)"
  obtain upper1 r2 where m2: "Measure_opt upper ?r1 = (upper1, r2)"
    by (cases "Measure_opt upper ?r1")
  obtain lower1 r3 where m3: "Measure_opt lower r2 = (lower1, r3)"
    by (cases "Measure_opt lower r2")
  from 6(3) have h: "0 \<le> textHeight r (times_1_5 baseSize) False"
    by (simp add: nonneg_heights_def)
  then have "0 \<le> cdiv (textHeight r (times_1_5 baseSize) False) 2" by (simp add: cdiv_nonneg)
  with h m2 m3 show ?case by (simp add: Let_def mk_geo_def)
next
  case (7 g child index r)
  obtain child1 r1 where m1: "Measure child r = (child1, r1)" by (cases "Measure child r")
  obtain index1 r2 where m2: "Measure_opt index r1 = (index1, r2)"
    by (cases "Measure_opt index r1")
  from 7(1) [OF 7(3)] m1 have "0 \<le> height (geo child1)" "0 \<le> ascent (geo child1)"
    by simp_all
  with m1 m2 show ?case
    by (auto simp: Let_def mk_geo_def max_def split: option.splits)
next
  case (8 g content left right r)
  obtain c1 r1 where m1: "Measure content r = (c1, r1)" by (cases "Measure content r")
  from 8(1) [OF 8(2)] m1 show ?case by (simp add: mk_geo_def)
next
  case (9 r w maxAscent maxDescent)
  then show ?case by simp
next
  case (10 c cs r w maxAscent maxDescent)
  obtain c1 r1 where m1: "Measure c r = (c1, r1)" by (cases "Measure c r")
  let ?w1 = "w + width (geo c1)"
  let ?a1 = "if maxAscent < ascent (geo c1) then ascent (geo c1) else maxAscent"
  let ?d1 = "if maxDescent < height (geo c1) - ascent (geo c1)
             then height (geo c1) - ascent (geo c1) else maxDescent"
  obtain cs1 w2 a2 d2 r2 where m2: "Measure_children cs r1 ?w1 ?a1 ?d1 = (cs1, w2, a2, d2, r2)"
    by (cases "Measure_children cs r1 ?w1 ?a1 ?d1") auto
  from nonneg_after(1) [OF 10(3), of c] m1 have n1: "nonneg_heights r1" by simp
  from 10(1) [OF 10(3)] m1 have c: "0 \<le> ascent (geo c1)" by simp
  from 10(4) have a: "0 \<le> ?a1" by simp
  from 10(5) have d: "0 \<le> ?d1" by simp
  from 10(2) [OF m1 [symmetric] refl refl refl refl n1 a d] m2
  have "0 \<le> a2 \<and> 0 \<le> d2 \<and> (\<forall>c\<in>set cs1. 0 \<le> ascent (geo c))" by simp
  with c m1 m2 show ?case by (simp add: Let_def)
next
  case (11 r)
  show ?case by (simp add: opt_height_def)
next
  case (12 n r)
  obtain n1 r1 where m1: "Measure n r = (n1, r1)" by (cases "Measure n r")
  from 12(1) [OF 12(2)] m1 show ?case by (simp add: opt_height_def)
qed


text \<open>
  C1.  Let a row be measured.  \<^verbatim>\<open>Draw\<close> at \<open>(x, y)\<close> then draws the measured children in
  order, child \<open>i\<close> at the horizontal position \<open>x\<close> plus the widths of the children before
  it and at the vertical position \<open>y + (rowAscent - ascent\<^sub>i)\<close>, where \<open>rowAscent\<close> is the
  ascent stored in the row: the largest ascent among the children, counted from 0.  With a
  renderer whose line heights are not negative no child has a negative ascent, and for a
  row that has children \<open>rowAscent\<close> is the maximum of the children's ascents.
\<close>

theorem row_baseline_alignment:
  assumes "Measure (RowNode g children) r = (row1, r1)"
  shows "\<exists>g1 cs1.
    row1 = RowNode g1 cs1 \<and> length cs1 = length children \<and>
    (\<forall>rd x y.
       Draw row1 rd x y =
         foldl (\<lambda>rd i. Draw (cs1 ! i) rd
                           (x + sum_list (map (width \<circ> geo) (take i cs1)))
                           (y + (ascent g1 - ascent (geo (cs1 ! i)))))
           rd [0..<length cs1]) \<and>
    ascent g1 = Max (insert 0 (set (map (ascent \<circ> geo) cs1))) \<and>
    (nonneg_heights r \<and> children \<noteq> [] \<longrightarrow>
       ascent g1 = Max (set (map (ascent \<circ> geo) cs1)))"
proof -
  obtain cs1 w1 a1 d1 r2 where m: "Measure_children children r 0 0 0 = (cs1, w1, a1, d1, r2)"
    by (cases "Measure_children children r 0 0 0") auto
  let ?g1 = "mk_geo w1 (a1 + d1) a1"
  let ?S = "set (map (ascent \<circ> geo) cs1)"
  from assms m have row1: "row1 = RowNode ?g1 cs1" by simp
  from Measure_children_acc [OF m] have len: "length cs1 = length children"
    and asc: "a1 = Max (insert 0 ?S)" by simp_all
  have ag: "ascent ?g1 = a1" by (simp add: mk_geo_def)
  have draw: "\<forall>rd x y.
       Draw (RowNode ?g1 cs1) rd x y =
         foldl (\<lambda>rd i. Draw (cs1 ! i) rd
                           (x + sum_list (map (width \<circ> geo) (take i cs1)))
                           (y + (ascent ?g1 - ascent (geo (cs1 ! i)))))
           rd [0..<length cs1]"
    by (simp add: Draw_children_index)
  have pos: "nonneg_heights r \<and> children \<noteq> [] \<longrightarrow> a1 = Max ?S"
  proof
    assume h: "nonneg_heights r \<and> children \<noteq> []"
    with Measure_nonneg(2) [of r 0 0 children 0] m have "\<forall>c\<in>set cs1. 0 \<le> ascent (geo c)"
      by simp
    then have all: "\<forall>v\<in>?S. 0 \<le> v" by simp
    from h len have ne: "?S \<noteq> {}" by auto
    then have "Max ?S \<in> ?S" by simp
    with all have "0 \<le> Max ?S" by blast
    with ne asc show "a1 = Max ?S" by simp
  qed
  from row1 len draw asc pos ag show ?thesis by auto
qed

theorem row_baseline_alignment_witness:
  "nonneg_heights sample_renderer \<and>
   Measure (RowNode geo0 [TextNode geo0 (wstr ''a'') True 28 0,
                          TextNode geo0 (wstr ''2'') False 19 0]) sample_renderer =
     (RowNode \<lparr>width = 23, height = 28, ascent = 22\<rparr>
        [TextNode \<lparr>width = 14, height = 28, ascent = 22\<rparr> (wstr ''a'') True 28 0,
         TextNode \<lparr>width = 9, height = 19, ascent = 15\<rparr> (wstr ''2'') False 19 0],
      sample_renderer\<lparr>rFontSize := 19\<rparr>) \<and>
   drawn (Draw (RowNode \<lparr>width = 23, height = 28, ascent = 22\<rparr>
        [TextNode \<lparr>width = 14, height = 28, ascent = 22\<rparr> (wstr ''a'') True 28 0,
         TextNode \<lparr>width = 9, height = 19, ascent = 15\<rparr> (wstr ''2'') False 19 0])
      sample_renderer 50 100) =
     [TextOut 50 100 (wstr ''a''), TextOut 64 107 (wstr ''2'')]"
proof -
  let ?row = "RowNode geo0 [TextNode geo0 (wstr ''a'') True 28 0,
                            TextNode geo0 (wstr ''2'') False 19 0]"
  let ?a = "TextNode \<lparr>width = 14, height = 28, ascent = 22\<rparr> (wstr ''a'') True 28 0"
  let ?b = "TextNode \<lparr>width = 9, height = 19, ascent = 15\<rparr> (wstr ''2'') False 19 0"
  let ?row1 = "RowNode \<lparr>width = 23, height = 28, ascent = 22\<rparr> [?a, ?b]"
  have n: "nonneg_heights sample_renderer"
    by (simp add: nonneg_heights_def sample_renderer_def)
  have m: "Measure ?row sample_renderer = (?row1, sample_renderer\<lparr>rFontSize := 19\<rparr>)"
    by (simp add: render_eval scale_values cdiv_def)
  from row_baseline_alignment [OF m] obtain g1 cs1 where
    e: "?row1 = RowNode g1 cs1" and
    d: "\<forall>rd x y.
       Draw ?row1 rd x y =
         foldl (\<lambda>rd i. Draw (cs1 ! i) rd
                           (x + sum_list (map (width \<circ> geo) (take i cs1)))
                           (y + (ascent g1 - ascent (geo (cs1 ! i)))))
           rd [0..<length cs1]"
    by blast
  from e have g1: "g1 = \<lparr>width = 23, height = 28, ascent = 22\<rparr>" and cs1: "cs1 = [?a, ?b]"
    by simp_all
  have "drawn (Draw ?row1 sample_renderer 50 100) =
      [TextOut 50 100 (wstr ''a''), TextOut 64 107 (wstr ''2'')]"
    unfolding d [rule_format] g1 cs1
    by (simp add: render_eval numeral_2_eq_2)
  with n m show ?thesis by simp
qed


section \<open>Termination of the parser\<close>

text \<open>
  C10.  \<^verbatim>\<open>Parse\<close> returns a row from every parser state, whatever the source string and the
  font size.  What makes it return:
  \<^item> an iteration of the top-level loop, entered with the cursor before the end, leaves the
    cursor strictly further on (the item moves it forward, the scripts never back);
  \<^item> an iteration of either block-extraction loop, and one of the \<^verbatim>\<open>\left\<close>/\<^verbatim>\<open>\right\<close> scan
    that does not stop, continues at the next position;
  \<^item> an iteration of the script loop leaves the cursor strictly further on, and the block
    it extracts is strictly shorter than the source;
  \<^item> the loop consults the nested parse only on parsers whose source is strictly shorter
    than its own: changing the nested parse elsewhere does not change the result.
\<close>

theorem Parse_terminates:
  "(\<exists>root. Parse L p = Inr root) \<and>
   (pos p < length (source p) \<longrightarrow>
      (\<forall>sub x p1. ParseItem L sub p = Inr (x, p1) \<longrightarrow>
         source p1 = source p \<and> pos p < pos p1 \<and>
         (\<forall>node node1 p2. CheckForScripts sub node p1 = Inr (node1, p2) \<longrightarrow>
            source p2 = source p \<and> pos p1 \<le> pos p2))) \<and>
   (pos p < length (source p) \<longrightarrow>
      source (snd (Next p)) = source p \<and> pos (snd (Next p)) = pos p + 1 \<and>
      (\<forall>depth res. 0 < depth \<longrightarrow>
         (\<exists>depth1 res1. block_braces p depth res = block_braces (snd (Next p)) depth1 res1)) \<and>
      (\<forall>res. Peek p \<noteq> wch CHR '']'' \<longrightarrow>
         (\<exists>res1. block_brackets p res = block_brackets (snd (Next p)) res1)) \<and>
      (\<forall>depth. scan_right p depth = Inr p \<or>
         (\<exists>depth1. scan_right p depth = scan_right (p\<lparr>pos := pos p + 1\<rparr>) depth1))) \<and>
   (Peek p = wch CHR ''^'' \<or> Peek p = wch CHR ''_'' \<longrightarrow>
      (\<forall>type p1 s p2. Next p = (type, p1) \<and> ParseBlockStr p1 = (s, p2) \<longrightarrow>
         source p2 = source p \<and> pos p < pos p2 \<and> length s < length (source p))) \<and>
   (\<forall>sub sub' row. agree (length (source p)) sub sub' \<longrightarrow>
      Parse_loop L sub p row = Parse_loop L sub' p row)"
proof (intro conjI impI allI)
  show "\<exists>root. Parse L p = Inr root" by (rule Parse_unfailing)
next
  fix sub x p1
  assume lt: "pos p < length (source p)" and i: "ParseItem L sub p = Inr (x, p1)"
  from ParseItem_adv [OF i lt] show "source p1 = source p" "pos p < pos p1"
    by (simp_all add: adv_def)
next
  fix sub x p1 node node1 p2
  assume lt: "pos p < length (source p)" and i: "ParseItem L sub p = Inr (x, p1)"
    and c: "CheckForScripts sub node p1 = Inr (node1, p2)"
  from ParseItem_adv [OF i lt] CheckForScripts_adv [OF c]
  show "source p2 = source p" "pos p1 \<le> pos p2"
    by (simp_all add: adv_def)
next
  assume lt: "pos p < length (source p)"
  then show "source (snd (Next p)) = source p" "pos (snd (Next p)) = pos p + 1"
    by (simp_all add: Next_def)
next
  fix depth :: int and res
  assume lt: "pos p < length (source p)" and d: "0 < depth"
  then show "\<exists>depth1 res1. block_braces p depth res = block_braces (snd (Next p)) depth1 res1"
    by (subst block_braces.simps) (simp add: split_beta Let_def, blast)
next
  fix res
  assume lt: "pos p < length (source p)" and d: "Peek p \<noteq> wch CHR '']''"
  then show "\<exists>res1. block_brackets p res = block_brackets (snd (Next p)) res1"
    by (subst block_brackets.simps) (simp add: split_beta, blast)
next
  fix depth
  assume lt: "pos p < length (source p)"
  then have s: "substr (source p) (pos p) 5 = Inr (take 5 (drop (pos p) (source p)))"
    "substr (source p) (pos p) 6 = Inr (take 6 (drop (pos p) (source p)))"
    by (simp_all add: substr_def)
  from lt show "scan_right p depth = Inr p \<or>
      (\<exists>depth1. scan_right p depth = scan_right (p\<lparr>pos := pos p + 1\<rparr>) depth1)"
    by (subst (1 2) scan_right.simps) (auto simp: s Let_def)
next
  fix type p1 s p2
  assume a: "Peek p = wch CHR ''^'' \<or> Peek p = wch CHR ''_''"
    and b: "Next p = (type, p1) \<and> ParseBlockStr p1 = (s, p2)"
  from b have n: "Next p = (type, p1)" and bl: "ParseBlockStr p1 = (s, p2)" by simp_all
  from script_step [OF a n bl]
  show "source p2 = source p" "pos p < pos p2" "length s < length (source p)"
    by (simp_all add: adv_def)
next
  fix sub sub' row
  assume "agree (length (source p)) sub sub'"
  then show "Parse_loop L sub p row = Parse_loop L sub' p row"
    by (rule Parse_loop_agree)
qed


theorem Parse_terminates_witness:
  "pos \<lparr>source = wstr ''x^{2}'', pos = 1, currentFontSize = 28, symbols = symbol_table\<rparr>
     < length (wstr ''x^{2}'') \<and>
   Peek \<lparr>source = wstr ''x^{2}'', pos = 1, currentFontSize = 28, symbols = symbol_table\<rparr>
     = wch CHR ''^'' \<and>
   Peek \<lparr>source = wstr ''x^{2}'', pos = 1, currentFontSize = 28, symbols = symbol_table\<rparr>
     \<noteq> wch CHR '']'' \<and>
   Next \<lparr>source = wstr ''x^{2}'', pos = 1, currentFontSize = 28, symbols = symbol_table\<rparr>
     = (wch CHR ''^'',
        \<lparr>source = wstr ''x^{2}'', pos = 2, currentFontSize = 28, symbols = symbol_table\<rparr>) \<and>
   ParseBlockStr
     \<lparr>source = wstr ''x^{2}'', pos = 2, currentFontSize = 28, symbols = symbol_table\<rparr>
     = (wstr ''2'',
        \<lparr>source = wstr ''x^{2}'', pos = 5, currentFontSize = 28, symbols = symbol_table\<rparr>) \<and>
   ParseItem C_locale (Parse C_locale)
     \<lparr>source = wstr ''x^{2}'', pos = 1, currentFontSize = 28, symbols = symbol_table\<rparr>
     = Inr (Some (TextNode geo0 (wstr ''^'') False 28 0),
        \<lparr>source = wstr ''x^{2}'', pos = 2, currentFontSize = 28, symbols = symbol_table\<rparr>) \<and>
   agree (length (wstr ''x^{2}'')) (Parse C_locale) (Parse C_locale) \<and>
   length (wstr ''2'') < length (wstr ''x^{2}'') \<and>
   (\<exists>depth1 res1.
      block_braces
        \<lparr>source = wstr ''x^{2}'', pos = 1, currentFontSize = 28, symbols = symbol_table\<rparr> 1 [] =
      block_braces
        \<lparr>source = wstr ''x^{2}'', pos = 2, currentFontSize = 28, symbols = symbol_table\<rparr>
        depth1 res1) \<and>
   (\<exists>res1.
      block_brackets
        \<lparr>source = wstr ''x^{2}'', pos = 1, currentFontSize = 28, symbols = symbol_table\<rparr> [] =
      block_brackets
        \<lparr>source = wstr ''x^{2}'', pos = 2, currentFontSize = 28, symbols = symbol_table\<rparr>
        res1) \<and>
   (\<exists>root. Parse C_locale
      \<lparr>source = wstr ''x^{2}'', pos = 1, currentFontSize = 28, symbols = symbol_table\<rparr>
      = Inr root)"
proof -
  let ?p = "\<lparr>source = wstr ''x^{2}'', pos = 1, currentFontSize = 28, symbols = symbol_table\<rparr>"
  let ?p1 = "\<lparr>source = wstr ''x^{2}'', pos = 2, currentFontSize = 28, symbols = symbol_table\<rparr>"
  let ?p2 = "\<lparr>source = wstr ''x^{2}'', pos = 5, currentFontSize = 28, symbols = symbol_table\<rparr>"
  have lt: "pos ?p < length (wstr ''x^{2}'')" by simp
  then have lt': "pos ?p < length (source ?p)" by simp
  have pk: "Peek ?p = wch CHR ''^''" by (simp add: Peek_def wstr_def)
  have npk: "Peek ?p \<noteq> wch CHR '']''" by (simp add: Peek_def wstr_def wch_def)
  have nx: "Next ?p = (wch CHR ''^'', ?p1)" by (simp add: Next_def wstr_def)
  then have nx': "snd (Next ?p) = ?p1" by simp
  have bl: "ParseBlockStr ?p1 = (wstr ''2'', ?p2)" by (simp add: parse_eval)
  have it: "ParseItem C_locale (Parse C_locale) ?p =
      Inr (Some (TextNode geo0 (wstr ''^'') False 28 0), ?p1)"
    using C_locale_standard by (simp add: parse_eval)
  have ag: "agree (length (wstr ''x^{2}'')) (Parse C_locale) (Parse C_locale)"
    by (simp add: agree_def)
  from Parse_terminates [of C_locale ?p] have
    t: "\<exists>root. Parse C_locale ?p = Inr root" and
    b: "pos ?p < length (source ?p) \<longrightarrow>
      source (snd (Next ?p)) = source ?p \<and> pos (snd (Next ?p)) = pos ?p + 1 \<and>
      (\<forall>depth res. 0 < depth \<longrightarrow>
         (\<exists>depth1 res1. block_braces ?p depth res = block_braces (snd (Next ?p)) depth1 res1)) \<and>
      (\<forall>res. Peek ?p \<noteq> wch CHR '']'' \<longrightarrow>
         (\<exists>res1. block_brackets ?p res = block_brackets (snd (Next ?p)) res1)) \<and>
      (\<forall>depth. scan_right ?p depth = Inr ?p \<or>
         (\<exists>depth1. scan_right ?p depth = scan_right (?p\<lparr>pos := pos ?p + 1\<rparr>) depth1))" and
    s: "Peek ?p = wch CHR ''^'' \<or> Peek ?p = wch CHR ''_'' \<longrightarrow>
      (\<forall>type p1 s p2. Next ?p = (type, p1) \<and> ParseBlockStr p1 = (s, p2) \<longrightarrow>
         source p2 = source ?p \<and> pos ?p < pos p2 \<and> length s < length (source ?p))"
    by blast+
  from s pk nx bl have "length (wstr ''2'') < length (source ?p)" by blast
  then have sh: "length (wstr ''2'') < length (wstr ''x^{2}'')" by simp
  from b lt' have "\<forall>depth res. 0 < depth \<longrightarrow>
      (\<exists>depth1 res1. block_braces ?p depth res = block_braces (snd (Next ?p)) depth1 res1)"
    by blast
  then have "\<exists>depth1 res1. block_braces ?p 1 [] = block_braces (snd (Next ?p)) depth1 res1"
    by simp
  then have bb: "\<exists>depth1 res1. block_braces ?p 1 [] = block_braces ?p1 depth1 res1"
    unfolding nx' .
  from b lt' npk have "\<exists>res1. block_brackets ?p [] = block_brackets (snd (Next ?p)) res1"
    by blast
  then have bk: "\<exists>res1. block_brackets ?p [] = block_brackets ?p1 res1"
    unfolding nx' .
  from lt pk npk nx bl it ag sh bb bk t show ?thesis by blast
qed


end
